theory Spec2Isabelle
  imports Complex_Main "HOL-Library.Multiset"
begin

section \<open>Overview\<close>

text \<open>
  A model of the talks board: the router (\<open>router.js\<close>) and the server with its five
  route handlers, its version counter and its long-polling waiters. The state of the
  server object and its effects on the outside (responses written, promises settled,
  timeouts set, files saved) are one record, passed through the functions. A step of
  the model is what the program does between two turns of the event loop: it serves
  one request whose body has been read, or runs the callback of one timeout. What the
  platform provides is taken as given: the path of a request, the outcome of reading
  and parsing its body, and the serialisation of a talk.
\<close>

section \<open>Strings\<close>

text \<open>
  A JavaScript string is modelled by the HOL string of its UTF-8 bytes: an ASCII
  character is one \<^typ>\<open>char\<close>, any other character is the two to four bytes of its
  encoding. Paths, header values and the literals of the program are ASCII almost
  always; the representation matters only where the language looks at characters
  outside ASCII (white space in a number, the line terminators that \<open>.\<close> refuses,
  the bytes that \<open>decodeURIComponent\<close> puts together).
\<close>

definition code :: "char \<Rightarrow> nat" where
  "code c = of_char c"

definition is_digit :: "char \<Rightarrow> bool" where
  "is_digit c = (48 \<le> code c \<and> code c \<le> 57)"

definition is_word :: "char \<Rightarrow> bool" where
  "is_word c = (is_digit c \<or> (65 \<le> code c \<and> code c \<le> 90) \<or> (97 \<le> code c \<and> code c \<le> 122) \<or> code c = 95)"

definition dquote :: char where
  "dquote = CHR 0x22"

section \<open>Regular expressions\<close>

text \<open>
  The program uses five regular expression literals. They are built from literal
  characters, the classes \<open>.\<close>, \<open>[^\/]\<close> and \<open>\d\<close> under \<open>*\<close> or \<open>+\<close>, one capturing
  group, and the assertions \<open>^\<close>, \<open>$\<close> and \<open>\b\<close>. The matcher below is the backtracking
  matcher of the language for that fragment: a node gets the continuation that
  matches the rest of the pattern, the greedy quantifiers try the longest run first,
  and \<open>exec\<close> tries the start positions from left to right. None of the literals has
  a flag, so \<open>^\<close> and \<open>$\<close> hold at the two ends of the text only and \<open>exec\<close> keeps no
  position between calls.
\<close>

datatype cls = Dot | NotSlash | Digit

datatype node = Lit char | Star cls | Plus cls | Open | Close | Bol | Eol | WordB

text \<open>
  A position in the text is the pair of the characters before it, nearest first, and
  the characters from it on. \<open>.\<close> refuses the line terminators: LF, CR, and U+2028 and
  U+2029, which are the bytes E2 80 A8 and E2 80 A9.
\<close>

definition line_terminator_here :: "string \<Rightarrow> bool" where
  "line_terminator_here s =
     (case s of
        [] \<Rightarrow> False
      | c # cs \<Rightarrow> code c = 10 \<or> code c = 13 \<or>
          (code c = 226 \<and> (map code (take 2 cs) = [128, 168] \<or> map code (take 2 cs) = [128, 169])))"

fun accepts :: "cls \<Rightarrow> string \<Rightarrow> bool" where
  "accepts c [] = False"
| "accepts Dot (x # xs) = (\<not> line_terminator_here (x # xs))"
| "accepts NotSlash (x # xs) = (x \<noteq> CHR ''/'')"
| "accepts Digit (x # xs) = is_digit x"

definition word_here :: "string \<Rightarrow> bool" where
  "word_here s = (case s of [] \<Rightarrow> False | c # _ \<Rightarrow> is_word c)"

type_synonym 'r cont = "string \<Rightarrow> string \<Rightarrow> nat list \<Rightarrow> string list \<Rightarrow> 'r option"

fun star :: "cls \<Rightarrow> 'r cont \<Rightarrow> 'r cont" where
  "star c k bef [] os cs = k bef [] os cs"
| "star c k bef (x # xs) os cs =
     (if accepts c (x # xs)
      then (case star c k (x # bef) xs os cs of
              Some r \<Rightarrow> Some r
            | None \<Rightarrow> k bef (x # xs) os cs)
      else k bef (x # xs) os cs)"

fun node_match :: "node \<Rightarrow> 'r cont \<Rightarrow> 'r cont" where
  "node_match (Lit ch) k bef rst os cs =
     (case rst of [] \<Rightarrow> None | x # xs \<Rightarrow> if x = ch then k (x # bef) xs os cs else None)"
| "node_match (Star c) k bef rst os cs = star c k bef rst os cs"
| "node_match (Plus c) k bef rst os cs =
     (case rst of
        [] \<Rightarrow> None
      | x # xs \<Rightarrow> if accepts c (x # xs) then star c k (x # bef) xs os cs else None)"
| "node_match Open k bef rst os cs = k bef rst (length bef # os) cs"
| "node_match Close k bef rst os cs =
     (case os of [] \<Rightarrow> None | p # ps \<Rightarrow> k bef rst ps (cs @ [rev (take (length bef - p) bef)]))"
| "node_match Bol k bef rst os cs = (if bef = [] then k bef rst os cs else None)"
| "node_match Eol k bef rst os cs = (if rst = [] then k bef rst os cs else None)"
| "node_match WordB k bef rst os cs =
     (if word_here bef \<noteq> word_here rst then k bef rst os cs else None)"

primrec nodes_match :: "node list \<Rightarrow> 'r cont \<Rightarrow> 'r cont" where
  "nodes_match [] k = k"
| "nodes_match (n # ns) k = node_match n (nodes_match ns k)"

text \<open>
  The result of \<open>exec\<close>: \<open>index\<close> is where the match starts, \<open>matched\<close> is element 0 of
  the match array, \<open>groups\<close> are the elements from 1 on (\<open>match.slice(1)\<close>).
\<close>

record match =
  index :: nat
  matched :: string
  groups :: "string list"

definition accept :: "nat \<Rightarrow> match cont" where
  "accept i bef rst os cs =
     Some \<lparr>index = i, matched = rev (take (length bef - i) bef), groups = cs\<rparr>"

fun exec_from :: "node list \<Rightarrow> string \<Rightarrow> string \<Rightarrow> match option" where
  "exec_from re bef [] = nodes_match re (accept (length bef)) bef [] [] []"
| "exec_from re bef (x # xs) =
     (case nodes_match re (accept (length bef)) bef (x # xs) [] [] of
        Some m \<Rightarrow> Some m
      | None \<Rightarrow> exec_from re (x # bef) xs)"

definition exec :: "node list \<Rightarrow> string \<Rightarrow> match option" where
  "exec re s = exec_from re [] s"

definition lits :: "string \<Rightarrow> node list" where
  "lits s = map Lit s"

text \<open>The three route patterns of the server, lines 14, 18 and 22.\<close>

definition talkPath :: "node list" where
  "talkPath = Bol # lits ''/talks/'' @ [Open, Plus NotSlash, Close, Eol]"

definition talkPathAddComment :: "node list" where
  "talkPathAddComment =
     Bol # lits ''/talks/'' @ [Open, Plus NotSlash, Close] @ lits ''/comments'' @ [Eol]"

definition talksPath :: "node list" where
  "talksPath = Bol # lits ''/talks'' @ [Eol]"

text \<open>The two patterns of the list handler, lines 315 and 316.\<close>

definition tagPattern :: "node list" where
  "tagPattern = [Lit dquote, Open, Star Dot, Close, Lit dquote]"

definition waitPattern :: "node list" where
  "waitPattern = WordB # lits ''wait='' @ [Open, Plus Digit, Close]"

text \<open>A character that \<open>[^\/]\<close> takes.\<close>

definition seg :: "char \<Rightarrow> bool" where
  "seg c = (c \<noteq> CHR ''/'')"

section \<open>Library functions of the language\<close>

subsection \<open>decodeURIComponent\<close>

text \<open>
  \<open>decodeURIComponent\<close> copies every character other than \<open>%\<close>. At a \<open>%\<close> it needs two
  hexadecimal digits; a byte below 128 is the character itself, any other byte must
  open a well-formed UTF-8 sequence whose remaining bytes are escapes too. Everything
  else is an \<open>URIError\<close>.
\<close>

datatype exception = URIError

definition hex_value :: "char \<Rightarrow> nat option" where
  "hex_value c =
     (if is_digit c then Some (code c - 48)
      else if 65 \<le> code c \<and> code c \<le> 70 then Some (code c - 55)
      else if 97 \<le> code c \<and> code c \<le> 102 then Some (code c - 87)
      else None)"

fun escape_here :: "string \<Rightarrow> (nat \<times> string) option" where
  "escape_here (p # h # l # r) =
     (if p = CHR ''%'' then
        (case hex_value h of
           None \<Rightarrow> None
         | Some a \<Rightarrow> (case hex_value l of None \<Rightarrow> None | Some b \<Rightarrow> Some (16 * a + b, r)))
      else None)"
| "escape_here _ = None"

fun escapes :: "nat \<Rightarrow> string \<Rightarrow> (nat list \<times> string) option" where
  "escapes 0 s = Some ([], s)"
| "escapes (Suc n) s =
     (case escape_here s of
        None \<Rightarrow> None
      | Some (b, r) \<Rightarrow>
          (case escapes n r of None \<Rightarrow> None | Some (bs, r') \<Rightarrow> Some (b # bs, r')))"

definition leading_ones :: "nat \<Rightarrow> nat" where
  "leading_ones b =
     (if b < 128 then 0 else if b < 192 then 1 else if b < 224 then 2
      else if b < 240 then 3 else if b < 248 then 4 else 5)"

definition between :: "nat \<Rightarrow> nat \<Rightarrow> nat \<Rightarrow> bool" where
  "between lo hi b = (lo \<le> b \<and> b \<le> hi)"

fun well_formed :: "nat list \<Rightarrow> bool" where
  "well_formed [a, b] = (between 194 223 a \<and> between 128 191 b)"
| "well_formed [a, b, c] =
     (between 128 191 c \<and>
      ((a = 224 \<and> between 160 191 b) \<or> (between 225 236 a \<and> between 128 191 b) \<or>
       (a = 237 \<and> between 128 159 b) \<or> (between 238 239 a \<and> between 128 191 b)))"
| "well_formed [a, b, c, d] =
     (between 128 191 c \<and> between 128 191 d \<and>
      ((a = 240 \<and> between 144 191 b) \<or> (between 241 243 a \<and> between 128 191 b) \<or>
       (a = 244 \<and> between 128 143 b)))"
| "well_formed _ = False"

definition prepend :: "string \<Rightarrow> exception + string \<Rightarrow> exception + string" where
  "prepend s r = (case r of Inl e \<Rightarrow> Inl e | Inr t \<Rightarrow> Inr (s @ t))"

function decodeURIComponent :: "string \<Rightarrow> exception + string" where
  "decodeURIComponent [] = Inr []"
| "decodeURIComponent (c # cs) =
     (if c \<noteq> CHR ''%'' then prepend [c] (decodeURIComponent cs)
      else
        (case escape_here (c # cs) of
           None \<Rightarrow> Inl URIError
         | Some (b, r) \<Rightarrow>
             if leading_ones b = 0 then prepend [char_of b] (decodeURIComponent r)
             else if leading_ones b = 1 \<or> 4 < leading_ones b then Inl URIError
             else
               (case escapes (leading_ones b - 1) r of
                  None \<Rightarrow> Inl URIError
                | Some (bs, r') \<Rightarrow>
                    if well_formed (b # bs)
                    then prepend (map char_of (b # bs)) (decodeURIComponent r')
                    else Inl URIError)))"
  by pat_completeness auto

lemma escape_here_shorter: "escape_here s = Some (b, r) \<Longrightarrow> length r < length s"
  by (induction s rule: escape_here.induct) (auto split: if_splits option.splits)

lemma escapes_shorter: "escapes n s = Some (bs, r) \<Longrightarrow> length r \<le> length s"
proof (induction n arbitrary: s bs r)
  case 0
  then show ?case by simp
next
  case (Suc n)
  then show ?case
    by (fastforce split: option.splits dest: escape_here_shorter)
qed

termination decodeURIComponent
proof (relation "measure length")
  show "wf (measure length)" by simp
next
  fix c cs
  show "(cs, c # cs) \<in> measure length" by simp
next
  fix c :: char and cs x2 x y
  assume "escape_here (c # cs) = Some x2" "(x, y) = x2"
  then have "length y < length (c # cs)"
    using escape_here_shorter [of "c # cs" x y] by simp
  then show "(y, c # cs) \<in> measure length" by simp
next
  fix c :: char and cs x2 x y x2a xa ya
  assume "escape_here (c # cs) = Some x2" "(x, y) = x2"
    "escapes (leading_ones x - 1) y = Some x2a" "(xa, ya) = x2a"
  then have "length y < length (c # cs)" "length ya \<le> length y"
    using escape_here_shorter [of "c # cs" x y] escapes_shorter [of "leading_ones x - 1" y xa ya]
    by simp_all
  then show "(ya, c # cs) \<in> measure length" by simp
qed

subsection \<open>Numbers and strings\<close>

text \<open>
  \<open>StringToNumber\<close> is the conversion the language applies to a string that meets a
  number (\<open>Number(s)\<close>, and \<open>s != n\<close> with a number \<open>n\<close>): white space is trimmed from
  both ends, the empty string is 0, and what is left must be \<open>0x\<close>, \<open>0o\<close> or \<open>0b\<close>
  with digits of that base, or an optional sign before \<open>Infinity\<close> or before a decimal
  literal with an optional fraction and exponent. The result here is the mathematical
  value of the literal, before it is rounded to a double.
\<close>

datatype numeric = NaN | Infinity bool | MV rat

definition ws1 :: "char \<Rightarrow> bool" where
  "ws1 a = (code a \<in> set [9, 10, 11, 12, 13, 32])"

definition ws2 :: "char \<Rightarrow> char \<Rightarrow> bool" where
  "ws2 a b = (code a = 194 \<and> code b = 160)"

definition ws3 :: "char \<Rightarrow> char \<Rightarrow> char \<Rightarrow> bool" where
  "ws3 a b c =
     ((code a = 225 \<and> code b = 154 \<and> code c = 128) \<or>
      (code a = 226 \<and> code b = 128 \<and>
         (between 128 138 (code c) \<or> code c = 168 \<or> code c = 169 \<or> code c = 175)) \<or>
      (code a = 226 \<and> code b = 129 \<and> code c = 159) \<or>
      (code a = 227 \<and> code b = 128 \<and> code c = 128) \<or>
      (code a = 239 \<and> code b = 187 \<and> code c = 191))"

fun trim_start :: "string \<Rightarrow> string" where
  "trim_start (a # b # c # r) =
     (if ws1 a then trim_start (b # c # r)
      else if ws2 a b then trim_start (c # r)
      else if ws3 a b c then trim_start r
      else a # b # c # r)"
| "trim_start [a, b] = (if ws1 a then trim_start [b] else if ws2 a b then [] else [a, b])"
| "trim_start [a] = (if ws1 a then [] else [a])"
| "trim_start [] = []"

text \<open>The same from the end, on the reversed string.\<close>

fun trim_end_rev :: "string \<Rightarrow> string" where
  "trim_end_rev (c # b # a # r) =
     (if ws1 c then trim_end_rev (b # a # r)
      else if ws2 b c then trim_end_rev (a # r)
      else if ws3 a b c then trim_end_rev r
      else c # b # a # r)"
| "trim_end_rev [c, b] = (if ws1 c then trim_end_rev [b] else if ws2 b c then [] else [c, b])"
| "trim_end_rev [c] = (if ws1 c then [] else [c])"
| "trim_end_rev [] = []"

definition trim :: "string \<Rightarrow> string" where
  "trim s = rev (trim_end_rev (rev (trim_start s)))"

definition digits_value :: "nat \<Rightarrow> string \<Rightarrow> nat" where
  "digits_value base ds = foldl (\<lambda>n c. n * base + the (hex_value c)) 0 ds"

definition digits_of :: "nat \<Rightarrow> string \<Rightarrow> bool" where
  "digits_of base ds =
     (ds \<noteq> [] \<and> list_all (\<lambda>c. case hex_value c of None \<Rightarrow> False | Some d \<Rightarrow> d < base) ds)"

definition scale :: "rat \<Rightarrow> int \<Rightarrow> rat" where
  "scale q e = (if 0 \<le> e then q * 10 ^ nat e else q / 10 ^ nat (- e))"

text \<open>The exponent part of a decimal literal: nothing, or \<open>e\<close> or \<open>E\<close>, a sign, digits.\<close>

definition exponent :: "string \<Rightarrow> int option" where
  "exponent s =
     (case s of
        [] \<Rightarrow> Some 0
      | c # r \<Rightarrow>
          if c = CHR ''e'' \<or> c = CHR ''E'' then
            (case r of
               [] \<Rightarrow> None
             | g # ds \<Rightarrow>
                 if g = CHR ''+'' then (if digits_of 10 ds then Some (int (digits_value 10 ds)) else None)
                 else if g = CHR ''-'' then (if digits_of 10 ds then Some (- int (digits_value 10 ds)) else None)
                 else if digits_of 10 r then Some (int (digits_value 10 r)) else None)
          else None)"

definition unsigned_decimal :: "string \<Rightarrow> rat option" where
  "unsigned_decimal s =
     (let ip = takeWhile is_digit s;
          r1 = dropWhile is_digit s;
          dot = (r1 \<noteq> [] \<and> hd r1 = CHR ''.'');
          fp = (if dot then takeWhile is_digit (tl r1) else []);
          r2 = (if dot then dropWhile is_digit (tl r1) else r1)
      in if ip = [] \<and> fp = [] then None
         else (case exponent r2 of
                 None \<Rightarrow> None
               | Some e \<Rightarrow>
                   Some (scale (of_nat (digits_value 10 (ip @ fp))) (e - int (length fp)))))"

definition signed_literal :: "bool \<Rightarrow> string \<Rightarrow> numeric" where
  "signed_literal neg s =
     (if s = ''Infinity'' then Infinity neg
      else (case unsigned_decimal s of
              None \<Rightarrow> NaN
            | Some q \<Rightarrow> MV (if neg then - q else q)))"

definition prefixed :: "char \<Rightarrow> char \<Rightarrow> string \<Rightarrow> bool" where
  "prefixed lower upper s =
     (case s of z # x # _ \<Rightarrow> z = CHR ''0'' \<and> (x = lower \<or> x = upper) | _ \<Rightarrow> False)"

definition StringToNumber :: "string \<Rightarrow> numeric" where
  "StringToNumber s =
     (let t = trim s in
      if t = [] then MV 0
      else if prefixed (CHR ''x'') (CHR ''X'') t then
        (if digits_of 16 (drop 2 t) then MV (of_nat (digits_value 16 (drop 2 t))) else NaN)
      else if prefixed (CHR ''o'') (CHR ''O'') t then
        (if digits_of 8 (drop 2 t) then MV (of_nat (digits_value 8 (drop 2 t))) else NaN)
      else if prefixed (CHR ''b'') (CHR ''B'') t then
        (if digits_of 2 (drop 2 t) then MV (of_nat (digits_value 2 (drop 2 t))) else NaN)
      else if hd t = CHR ''+'' then signed_literal False (tl t)
      else if hd t = CHR ''-'' then signed_literal True (tl t)
      else signed_literal False t)"

text \<open>
  The version is a counter of type number that only ever holds a natural number; the
  model keeps it as a \<^typ>\<open>nat\<close>, which is what the double holds below \<open>2 ^ 53\<close>.
  \<open>rounds_to q v\<close> says that the double nearest to \<open>q\<close> (ties to the even mantissa) is
  \<open>v\<close>: \<open>q\<close> lies within half a unit in the last place of \<open>v\<close>, where the unit below a
  power of two is half the unit above it.
\<close>

fun log2 :: "nat \<Rightarrow> nat" where
  "log2 n = (if n < 2 then 0 else Suc (log2 (n div 2)))"

declare log2.simps [simp del]

definition rounds_to :: "rat \<Rightarrow> nat \<Rightarrow> bool" where
  "rounds_to q v =
     (if v = 0 then \<bar>q\<bar> * 2 ^ 1075 \<le> 1
      else
        (let e = log2 v;
             up = (2 ^ e / 2 ^ 53 :: rat);
             down = (if v = 2 ^ e then up / 2 else up);
             lo = of_nat v - down;
             hi = of_nat v + up
         in (lo < q \<and> q < hi) \<or> (even (v * 2 ^ 52 div 2 ^ e) \<and> (q = lo \<or> q = hi))))"

text \<open>\<open>x == n\<close> for a string \<open>x\<close> and a number \<open>n\<close> that holds a natural number.\<close>

definition loosely_equal :: "string \<Rightarrow> nat \<Rightarrow> bool" where
  "loosely_equal x n = (case StringToNumber x of MV q \<Rightarrow> rounds_to q n | _ \<Rightarrow> False)"

text \<open>The decimal digits of a natural number, as a template literal prints it.\<close>

fun decimal :: "nat \<Rightarrow> string" where
  "decimal n = (if n < 10 then [char_of (48 + n)] else decimal (n div 10) @ [char_of (48 + n mod 10)])"

declare decimal.simps [simp del]

section \<open>Data\<close>

text \<open>
  A request body is read from the stream and handed to \<open>JSON.parse\<close>. Reading and
  parsing are the platform's; the model takes their outcome: the stream failed, the
  text was no JSON, or the value that was parsed.
\<close>

datatype json =
    JNull
  | JBool bool
  | JNumber rat
  | JString string
  | JArray "json list"
  | JObject "(string \<times> json) list"

record talk =
  title :: string
  presenter :: string
  summary :: string
  comments :: "json list"

text \<open>
  What a response carries as its body: a text, or the output of \<open>JSON.stringify\<close> on
  one talk or on the array of talks. Serialisation itself is not modelled.
\<close>

datatype payload = Text string | Json_talk talk | Json_talks "talk list"

text \<open>The object a handler returns; an absent property is \<open>None\<close>.\<close>

record response =
  status :: "nat option"
  headers :: "(string \<times> string) list option"
  body :: "payload option"

text \<open>
  The reason of a rejected promise: what \<open>String(error)\<close> gives, and the \<open>status\<close>,
  \<open>headers\<close> and \<open>body\<close> properties of the error object.
\<close>

record failure =
  as_string :: string
  properties :: response

datatype content = Stream_error failure | Invalid_JSON | Parsed json

text \<open>
  A request: \<open>request.method\<close>, the \<open>pathname\<close> that \<open>parse(request.url)\<close> gives, the
  two headers the program reads (\<open>None\<close> when the header is absent), and the body.
\<close>

record request =
  request_method :: string
  pathname :: string
  if_none_match :: "string option"
  prefer_header :: "string option"
  stream :: content

text \<open>What \<open>writeHead\<close> and \<open>end\<close> were called with.\<close>

record written_response =
  wire_status :: nat
  wire_headers :: "(string \<times> string) list"
  wire_body :: "payload option"

text \<open>
  The state. \<open>talks\<close>, \<open>version\<close> and \<open>waiting\<close> are the fields of the server object:
  \<open>talks\<close> holds the own properties of the object in the order they were created, and
  \<open>waiting\<close> holds the \<open>resolve\<close> functions, each named by the number of the request
  whose promise it resolves. The other fields are the effects on the world outside:
  \<open>settled\<close> the promises of \<open>waitForChanges\<close> that were resolved, and with what;
  \<open>written\<close> the responses written, by request; \<open>timers\<close> the timeouts set and not yet
  fired, with their delay in seconds; \<open>saved\<close> the calls of \<open>writeFile\<close>; \<open>delegated\<close> the
  requests handed to the file server; \<open>closed\<close> the requests whose connection has
  closed; \<open>next_id\<close> the number of the next request.
\<close>

record state =
  talks :: "(string \<times> talk) list"
  version :: nat
  waiting :: "nat list"
  settled :: "(nat \<times> response) list"
  written :: "(nat \<times> written_response) list"
  timers :: "(nat \<times> numeric) list"
  saved :: "(string \<times> talk) list list"
  delegated :: "nat list"
  closed :: "nat list"
  next_id :: nat

section \<open>The server\<close>

text \<open>
  The constructor (lines 38 to 51) and \<open>start\<close> (line 79): \<open>loadTalks\<close> replaces the
  empty object by the talks of the file when the file is there and parses.
\<close>

definition SkillShareServer :: "(string \<times> talk) list \<Rightarrow> state" where
  "SkillShareServer ts =
     \<lparr>talks = ts, version = 0, waiting = [], settled = [], written = [], timers = [],
      saved = [], delegated = [], closed = [], next_id = 0\<rparr>"

definition start :: "(string \<times> talk) list option \<Rightarrow> state" where
  "start file =
     (case file of
        None \<Rightarrow> SkillShareServer []
      | Some ts \<Rightarrow> (SkillShareServer []) \<lparr>talks := ts\<rparr>)"

text \<open>
  \<open>Object.keys\<close> lists the keys that are array indices first, in ascending order, then
  the other keys in the order of their creation. An array index is the decimal form,
  without leading zeros, of a number below \<open>2 ^ 32 - 1\<close>.
\<close>

definition array_index :: "string \<Rightarrow> bool" where
  "array_index k =
     (digits_of 10 k \<and> (k = ''0'' \<or> hd k \<noteq> CHR ''0'') \<and> digits_value 10 k < 2 ^ 32 - 1)"

definition in_key_order :: "(string \<times> 'a) list \<Rightarrow> (string \<times> 'a) list" where
  "in_key_order ps =
     sort_key (\<lambda>p. digits_value 10 (fst p)) (filter (\<lambda>p. array_index (fst p)) ps) @
     filter (\<lambda>p. \<not> array_index (fst p)) ps"

definition Object_keys :: "(string \<times> 'a) list \<Rightarrow> string list" where
  "Object_keys ps = map fst (in_key_order ps)"

definition has_key :: "string \<Rightarrow> (string \<times> 'a) list \<Rightarrow> bool" where
  "has_key k ps = (k \<in> set (map fst ps))"

text \<open>
  \<open>talkResponse\<close>, lines 97 to 109: the values of the keys of \<open>Object.keys\<close>, in that
  order, are serialised as one array.
\<close>

definition talkResponse :: "state \<Rightarrow> response" where
  "talkResponse s =
     \<lparr>status = None,
      headers = Some [(''Content-Type'', ''application/json''),
                      (''ETag'', dquote # decimal (version s) @ [dquote])],
      body = Some (Json_talks (map snd (in_key_order (talks s))))\<rparr>"

text \<open>
  The callback that the server chains to the promise of a handler, lines 62 to 67: it
  fills in the defaults and writes the response of request \<open>c\<close>.
\<close>

definition defaultHeaders :: "(string \<times> string) list" where
  "defaultHeaders = [(''Content-Type'', ''text/plain'')]"

definition defaults :: "response \<Rightarrow> written_response" where
  "defaults r =
     \<lparr>wire_status = (case status r of None \<Rightarrow> 200 | Some n \<Rightarrow> n),
      wire_headers = (case headers r of None \<Rightarrow> defaultHeaders | Some h \<Rightarrow> h),
      wire_body = body r\<rparr>"

definition respond :: "nat \<Rightarrow> response \<Rightarrow> state \<Rightarrow> state" where
  "respond c r s = s\<lparr>written := written s @ [(c, defaults r)]\<rparr>"

text \<open>
  The \<open>resolve\<close> function of the promise that \<open>waitForChanges\<close> made for request \<open>w\<close>. A
  promise is settled once: a second call does nothing. The handler's promise follows
  it, so the callback above runs with the same response. In which order the responses
  of different requests are written within one step is not modelled.
\<close>

definition resolve_waiter :: "nat \<Rightarrow> response \<Rightarrow> state \<Rightarrow> state" where
  "resolve_waiter w r s =
     (if w \<in> set (map fst (settled s)) then s
      else respond w r (s\<lparr>settled := settled s @ [(w, r)]\<rparr>))"

text \<open>
  \<open>waitForChanges\<close>, lines 115 to 135, called for request \<open>c\<close>: the new promise's
  \<open>resolve\<close> is pushed and the timeout is set.
\<close>

definition waitForChanges :: "nat \<Rightarrow> numeric \<Rightarrow> state \<Rightarrow> state" where
  "waitForChanges c time s =
     s\<lparr>waiting := waiting s @ [c], timers := timers s @ [(c, time)]\<rparr>"

text \<open>
  The callback of that timeout, lines 118 to 133. The object it returns goes to the
  timer, which drops it; \<open>resolve\<close> is not called.
\<close>

definition timeout :: "nat \<Rightarrow> state \<Rightarrow> state" where
  "timeout w s =
     (if w \<notin> set (waiting s) then s
      else s\<lparr>waiting := filter (\<lambda>elem. elem \<noteq> w) (waiting s)\<rparr>)"

text \<open>\<open>writeTalks\<close>, lines 173 to 182: the outcome of the write is logged only.\<close>

definition writeTalks :: "state \<Rightarrow> state" where
  "writeTalks s = s\<lparr>saved := saved s @ [talks s]\<rparr>"

text \<open>\<open>updated\<close>, lines 140 to 146.\<close>

definition updated :: "state \<Rightarrow> state" where
  "updated s =
     (let s1 = s\<lparr>version := version s + 1\<rparr>;
          response = talkResponse s1;
          s2 = fold (\<lambda>resolve. resolve_waiter resolve response) (waiting s1) s1
      in writeTalks (s2\<lparr>waiting := []\<rparr>))"

section \<open>The handlers\<close>

text \<open>
  A handler is an \<open>async\<close> function: its promise is fulfilled with the object it
  returns, rejected with what it throws, or follows the promise of \<open>waitForChanges\<close>
  for the request.
\<close>

datatype outcome = Fulfilled response | Rejected failure | Pending nat

definition quote :: char where
  "quote = CHR 0x27"

definition plain :: "nat \<Rightarrow> string \<Rightarrow> response" where
  "plain n t = \<lparr>status = Some n, headers = None, body = Some (Text t)\<rparr>"

definition only_status :: "nat \<Rightarrow> response" where
  "only_status n = \<lparr>status = Some n, headers = None, body = None\<rparr>"

definition not_found :: "string \<Rightarrow> response" where
  "not_found t = plain 404 (''No talk '' @ [quote] @ t @ [quote] @ '' found'')"

text \<open>
  What the handlers ask of a parsed body \<open>v\<close>: \<open>!v\<close>, and \<open>typeof v.name\<close> for the names
  \<open>presenter\<close>, \<open>summary\<close>, \<open>author\<close> and \<open>message\<close>, which no prototype defines: only an
  object has them, as own properties.
\<close>

fun falsy :: "json \<Rightarrow> bool" where
  "falsy JNull = True"
| "falsy (JBool b) = (\<not> b)"
| "falsy (JNumber q) = (q = 0)"
| "falsy (JString t) = (t = [])"
| "falsy (JArray vs) = False"
| "falsy (JObject ps) = False"

fun property :: "json \<Rightarrow> string \<Rightarrow> json option" where
  "property (JObject ps) name = map_of ps name"
| "property _ name = None"

fun string_of :: "json option \<Rightarrow> string option" where
  "string_of (Some (JString t)) = Some t"
| "string_of _ = None"

text \<open>The handler of \<open>GET\<close> on a talk, lines 186 to 200.\<close>

definition get_talk :: "state \<Rightarrow> string \<Rightarrow> state \<times> outcome" where
  "get_talk s t =
     (case map_of (talks s) t of
        Some tk \<Rightarrow>
          (s, Fulfilled \<lparr>status = None,
                         headers = Some [(''Content-Type'', ''application/json'')],
                         body = Some (Json_talk tk)\<rparr>)
      | None \<Rightarrow> (s, Fulfilled (not_found t)))"

text \<open>The handler of \<open>DELETE\<close>, lines 203 to 209.\<close>

definition delete_talk :: "state \<Rightarrow> string \<Rightarrow> state \<times> outcome" where
  "delete_talk s t =
     (if has_key t (talks s)
      then (updated (s\<lparr>talks := filter (\<lambda>p. fst p \<noteq> t) (talks s)\<rparr>), Fulfilled (only_status 204))
      else (s, Fulfilled (only_status 204)))"

text \<open>
  Assignment to a property: an existing key keeps its place, a new one goes last.
\<close>

fun assign :: "string \<Rightarrow> 'a \<Rightarrow> (string \<times> 'a) list \<Rightarrow> (string \<times> 'a) list" where
  "assign k v [] = [(k, v)]"
| "assign k v (p # ps) = (if fst p = k then (k, v) # ps else p # assign k v ps)"

text \<open>The handler of \<open>PUT\<close>, lines 235 to 270.\<close>

definition put_talk :: "state \<Rightarrow> string \<Rightarrow> request \<Rightarrow> state \<times> outcome" where
  "put_talk s t req =
     (case stream req of
        Stream_error e \<Rightarrow> (s, Rejected e)
      | Invalid_JSON \<Rightarrow> (s, Fulfilled (plain 400 ''Invalid JSON''))
      | Parsed v \<Rightarrow>
          (case (falsy v, string_of (property v ''presenter''), string_of (property v ''summary'')) of
             (False, Some p, Some m) \<Rightarrow>
               (updated (s\<lparr>talks := assign t \<lparr>title = t, presenter = p, summary = m, comments = []\<rparr> (talks s)\<rparr>),
                Fulfilled (only_status 204))
           | _ \<Rightarrow> (s, Fulfilled (plain 400 ''Bad talk data''))))"

text \<open>The handler of \<open>POST\<close> on the comments of a talk, lines 273 to 310.\<close>

definition push_comment :: "string \<Rightarrow> json \<Rightarrow> (string \<times> talk) list \<Rightarrow> (string \<times> talk) list" where
  "push_comment t v ps =
     map (\<lambda>p. if fst p = t then (fst p, (snd p)\<lparr>comments := comments (snd p) @ [v]\<rparr>) else p) ps"

definition post_comment :: "state \<Rightarrow> string \<Rightarrow> request \<Rightarrow> state \<times> outcome" where
  "post_comment s t req =
     (case stream req of
        Stream_error e \<Rightarrow> (s, Rejected e)
      | Invalid_JSON \<Rightarrow> (s, Fulfilled (plain 400 ''Invalid JSON''))
      | Parsed v \<Rightarrow>
          if falsy v \<or> string_of (property v ''author'') = None \<or>
             string_of (property v ''message'') = None
          then (s, Fulfilled (plain 404 ''Bad comment data''))
          else if has_key t (talks s)
          then (updated (s\<lparr>talks := push_comment t v (talks s)\<rparr>), Fulfilled (only_status 204))
          else (s, Fulfilled (not_found t)))"

text \<open>
  The handler of \<open>GET\<close> on the list, lines 313 to 329, for request \<open>c\<close>. \<open>exec\<close> turns
  its argument into a string, an absent header into \<open>undefined\<close>. \<open>tag[1] != version\<close>
  compares a string with a number.
\<close>

definition header_text :: "string option \<Rightarrow> string" where
  "header_text h = (case h of None \<Rightarrow> ''undefined'' | Some v \<Rightarrow> v)"

definition first_group :: "match \<Rightarrow> string option" where
  "first_group m = (case groups m of [] \<Rightarrow> None | g # _ \<Rightarrow> Some g)"

definition Number :: "string option \<Rightarrow> numeric" where
  "Number v = (case v of None \<Rightarrow> NaN | Some t \<Rightarrow> StringToNumber t)"

definition differs :: "string option \<Rightarrow> nat \<Rightarrow> bool" where
  "differs v n = (case v of None \<Rightarrow> True | Some t \<Rightarrow> \<not> loosely_equal t n)"

definition get_talks :: "state \<Rightarrow> nat \<Rightarrow> request \<Rightarrow> state \<times> outcome" where
  "get_talks s c req =
     (let tag = exec tagPattern (header_text (if_none_match req));
          wait = exec waitPattern (header_text (prefer_header req))
      in case tag of
           None \<Rightarrow> (s, Fulfilled (talkResponse s))
         | Some tg \<Rightarrow>
             if differs (first_group tg) (version s) then (s, Fulfilled (talkResponse s))
             else
               (case wait of
                  None \<Rightarrow> (s, Fulfilled (only_status 304))
                | Some w \<Rightarrow> (waitForChanges c (Number (first_group w)) s, Pending c)))"

section \<open>The router\<close>

datatype handler = Get_talk | Delete_talk | Put_talk | Post_comment | Get_talks

record route =
  route_method :: string
  urlRegEx :: "node list"
  route_handler :: handler

text \<open>
  \<open>handler(context, ...urlParts, request)\<close>: the handlers of a talk take the one
  capture of their pattern, the handler of the list takes none. No route of the table
  calls a handler with another number of captures; such a call is left as a rejection
  here.
\<close>

definition type_error :: failure where
  "type_error =
     \<lparr>as_string = ''TypeError'', properties = \<lparr>status = None, headers = None, body = None\<rparr>\<rparr>"

fun call :: "handler \<Rightarrow> state \<Rightarrow> nat \<Rightarrow> string list \<Rightarrow> request \<Rightarrow> state \<times> outcome" where
  "call Get_talk s c [t] req = get_talk s t"
| "call Delete_talk s c [t] req = delete_talk s t"
| "call Put_talk s c [t] req = put_talk s t req"
| "call Post_comment s c [t] req = post_comment s t req"
| "call Get_talks s c [] req = get_talks s c req"
| "call _ s c _ req = (s, Rejected type_error)"

text \<open>\<open>match.slice(1).map(decodeURIComponent)\<close>: the first capture that fails throws.\<close>

fun decode_all :: "string list \<Rightarrow> exception + string list" where
  "decode_all [] = Inr []"
| "decode_all (g # gs) =
     (case decodeURIComponent g of
        Inl e \<Rightarrow> Inl e
      | Inr t \<Rightarrow> (case decode_all gs of Inl e \<Rightarrow> Inl e | Inr ts \<Rightarrow> Inr (t # ts)))"

text \<open>
  \<open>Router.resolve\<close>, lines 42 to 62 of the router: \<open>Inl\<close> is the exception it throws,
  \<open>Inr None\<close> the \<open>null\<close> it returns when no route is found.
\<close>

fun resolve :: "route list \<Rightarrow> state \<Rightarrow> nat \<Rightarrow> request \<Rightarrow> exception + (state \<times> outcome) option" where
  "resolve [] s c req = Inr None"
| "resolve (r # rs) s c req =
     (case exec (urlRegEx r) (pathname req) of
        None \<Rightarrow> resolve rs s c req
      | Some m \<Rightarrow>
          if request_method req \<noteq> route_method r then resolve rs s c req
          else
            (case decode_all (groups m) of
               Inl e \<Rightarrow> Inl e
             | Inr urlParts \<Rightarrow> Inr (Some (call (route_handler r) s c urlParts req))))"

text \<open>A route applies to a request when its pattern matches the path and the methods agree.\<close>

definition applies :: "request \<Rightarrow> route \<Rightarrow> bool" where
  "applies req r = (exec (urlRegEx r) (pathname req) \<noteq> None \<and> request_method req = route_method r)"

text \<open>The routes in the order they are added, lines 186, 203, 235, 273 and 313.\<close>

definition routes :: "route list" where
  "routes =
     [\<lparr>route_method = ''GET'', urlRegEx = talkPath, route_handler = Get_talk\<rparr>,
      \<lparr>route_method = ''DELETE'', urlRegEx = talkPath, route_handler = Delete_talk\<rparr>,
      \<lparr>route_method = ''PUT'', urlRegEx = talkPath, route_handler = Put_talk\<rparr>,
      \<lparr>route_method = ''POST'', urlRegEx = talkPathAddComment, route_handler = Post_comment\<rparr>,
      \<lparr>route_method = ''GET'', urlRegEx = talksPath, route_handler = Get_talks\<rparr>]"

section \<open>The server's request listener and the events\<close>

text \<open>
  The \<open>catch\<close> callback, lines 58 to 61: an error with a \<open>status\<close> is the response,
  any other becomes a 500 with the error as text.
\<close>

definition recover :: "failure \<Rightarrow> response" where
  "recover error =
     (if status (properties error) \<noteq> None then properties error
      else \<lparr>status = Some 500, headers = None, body = Some (Text (as_string error))\<rparr>)"

text \<open>
  What the promise of a handler leads to, lines 57 to 67. For a pending promise the
  callbacks wait; \<open>resolve_waiter\<close> runs them.
\<close>

definition settle :: "nat \<Rightarrow> outcome \<Rightarrow> state \<Rightarrow> state" where
  "settle c out s =
     (case out of
        Fulfilled r \<Rightarrow> respond c r s
      | Rejected e \<Rightarrow> respond c (recover e) s
      | Pending w \<Rightarrow> s)"

text \<open>
  The listener given to \<open>createServer\<close>, lines 53 to 72, run for a request once its body
  has been read. The request gets the next number. An exception that the router throws
  is caught nowhere: \<open>Inl\<close> is the process ending with it.
\<close>

definition serve :: "route list \<Rightarrow> state \<Rightarrow> request \<Rightarrow> exception + state" where
  "serve rs s req =
     (let c = next_id s; s0 = s\<lparr>next_id := c + 1\<rparr>
      in case resolve rs s0 c req of
           Inl e \<Rightarrow> Inl e
         | Inr None \<Rightarrow> Inr (s0\<lparr>delegated := delegated s0 @ [c]\<rparr>)
         | Inr (Some (s1, out)) \<Rightarrow> Inr (settle c out s1))"

text \<open>
  What happens to the server: a request arrives, the timeout set for request \<open>w\<close> fires,
  the connection of request \<open>c\<close> closes. The program listens to no close event, so the
  last only is recorded.
\<close>

datatype event = Request request | Timer nat | Disconnect nat

fun step :: "state \<Rightarrow> event \<Rightarrow> exception + state" where
  "step s (Request req) = serve routes s req"
| "step s (Timer w) =
     Inr (if w \<in> set (map fst (timers s))
          then timeout w (s\<lparr>timers := filter (\<lambda>p. fst p \<noteq> w) (timers s)\<rparr>)
          else s)"
| "step s (Disconnect c) = Inr (s\<lparr>closed := closed s @ [c]\<rparr>)"

text \<open>A run ends with the events, or with the exception that ends the process.\<close>

fun run :: "state \<Rightarrow> event list \<Rightarrow> state \<times> exception option" where
  "run s [] = (s, None)"
| "run s (e # es) = (case step s e of Inl x \<Rightarrow> (s, Some x) | Inr s' \<Rightarrow> run s' es)"

section \<open>Requests as the specification names them\<close>

text \<open>
  The title a request addresses through a pattern: the path matches and its one capture
  decodes.
\<close>

definition addressed :: "node list \<Rightarrow> request \<Rightarrow> string option" where
  "addressed re req =
     (case exec re (pathname req) of
        None \<Rightarrow> None
      | Some m \<Rightarrow> (case decode_all (groups m) of Inr [t] \<Rightarrow> Some t | _ \<Rightarrow> None))"

text \<open>
  A JSON object with a string \<open>presenter\<close> and a string \<open>summary\<close>, and one with a string
  \<open>author\<close> and a string \<open>message\<close>.
\<close>

definition has_strings :: "string \<Rightarrow> string \<Rightarrow> json \<Rightarrow> bool" where
  "has_strings a b v =
     (case v of
        JObject ps \<Rightarrow>
          (case map_of ps a of
             Some (JString _) \<Rightarrow> (case map_of ps b of Some (JString _) \<Rightarrow> True | _ \<Rightarrow> False)
           | _ \<Rightarrow> False)
      | _ \<Rightarrow> False)"

definition talk_object :: "json \<Rightarrow> bool" where
  "talk_object v = has_strings ''presenter'' ''summary'' v"

definition comment_object :: "json \<Rightarrow> bool" where
  "comment_object v = has_strings ''author'' ''message'' v"

definition body_is :: "(json \<Rightarrow> bool) \<Rightarrow> request \<Rightarrow> bool" where
  "body_is P req = (case stream req of Parsed v \<Rightarrow> P v | _ \<Rightarrow> False)"

definition present :: "state \<Rightarrow> string option \<Rightarrow> bool" where
  "present s t = (case t of None \<Rightarrow> False | Some k \<Rightarrow> has_key k (talks s))"

text \<open>
  A successful mutation: a talk is created or replaced, a talk that is there is deleted,
  a comment is appended to a talk that is there.
\<close>

fun mutates :: "state \<Rightarrow> event \<Rightarrow> bool" where
  "mutates s (Request req) =
     ((request_method req = ''PUT'' \<and> addressed talkPath req \<noteq> None \<and> body_is talk_object req) \<or>
      (request_method req = ''DELETE'' \<and> present s (addressed talkPath req)) \<or>
      (request_method req = ''POST'' \<and> present s (addressed talkPathAddComment req) \<and>
         body_is comment_object req))"
| "mutates s (Timer w) = False"
| "mutates s (Disconnect c) = False"

text \<open>The number of successful mutations in a run.\<close>

fun mutations :: "state \<Rightarrow> event list \<Rightarrow> nat" where
  "mutations s [] = 0"
| "mutations s (e # es) =
     (case step s e of
        Inl x \<Rightarrow> 0
      | Inr s' \<Rightarrow> (if mutates s e then 1 else 0) + mutations s' es)"

section \<open>Example requests\<close>

text \<open>A request without headers and without a body (the empty text is no JSON).\<close>

definition request_of :: "string \<Rightarrow> string \<Rightarrow> request" where
  "request_of m p =
     \<lparr>request_method = m, pathname = p, if_none_match = None, prefer_header = None,
      stream = Invalid_JSON\<rparr>"

text \<open>A request for the list with the two headers.\<close>

definition poll :: "string option \<Rightarrow> string option \<Rightarrow> request" where
  "poll tag wait = (request_of ''GET'' ''/talks'') \<lparr>if_none_match := tag, prefer_header := wait\<rparr>"

definition quoted :: "string \<Rightarrow> string" where
  "quoted t = dquote # t @ [dquote]"

definition ann :: json where
  "ann = JObject [(''presenter'', JString ''Ann''), (''summary'', JString ''Hi'')]"

definition remark :: json where
  "remark = JObject [(''author'', JString ''Bo''), (''message'', JString ''Nice'')]"

definition aborted :: failure where
  "aborted =
     \<lparr>as_string = ''Error: aborted'', properties = \<lparr>status = None, headers = None, body = None\<rparr>\<rparr>"

definition too_large :: failure where
  "too_large =
     \<lparr>as_string = ''Error: too large'',
      properties = \<lparr>status = Some 413, headers = None, body = Some (Text ''too large'')\<rparr>\<rparr>"

definition intro :: talk where
  "intro = \<lparr>title = ''x'', presenter = ''Ann'', summary = ''Hi'', comments = []\<rparr>"

text \<open>A state with one pending waiter whose connection has closed.\<close>

definition held :: state where
  "held =
     \<lparr>talks = [], version = 0, waiting = [0], settled = [], written = [],
      timers = [(0, MV 0)], saved = [], delegated = [], closed = [0], next_id = 1\<rparr>"

section \<open>An invariant of the waiters\<close>

text \<open>
  Below the bound \<open>k\<close>, every pending waiter is unsettled, and every waiter and every
  settled promise belongs to a request numbered below \<open>k\<close>.
\<close>

definition tidy :: "nat \<Rightarrow> state \<Rightarrow> bool" where
  "tidy k s =
     ((\<forall>w \<in> set (waiting s). map_of (settled s) w = None \<and> w < k) \<and>
      (\<forall>w \<in> set (map fst (settled s)). w < k))"

section \<open>What the patterns match\<close>

lemma exec_from_Bol: "bef \<noteq> [] \<Longrightarrow> exec_from (Bol # ns) bef rst = None"
  by (induction rst arbitrary: bef) simp_all

lemma exec_Bol: "exec (Bol # ns) p = nodes_match ns (accept 0) [] p [] []"
  by (cases p) (simp_all add: exec_def exec_from_Bol split: option.splits)

lemma nodes_match_append: "nodes_match (ns @ ms) k = nodes_match ns (nodes_match ms k)"
  by (induction ns) simp_all

lemma lits_match:
  "nodes_match (lits l) k bef rst os cs =
     (if take (length l) rst = l then k (rev l @ bef) (drop (length l) rst) os cs else None)"
proof (induction l arbitrary: bef rst)
  case Nil
  then show ?case by (simp add: lits_def)
next
  case (Cons a l)
  then have ih: "\<And>bef rst. nodes_match (map Lit l) k bef rst os cs =
     (if take (length l) rst = l then k (rev l @ bef) (drop (length l) rst) os cs else None)"
    by (simp add: lits_def)
  show ?case
    by (cases rst) (auto simp: lits_def ih)
qed

lemma star_NotSlash:
  assumes "\<And>b x xs. x \<noteq> CHR ''/'' \<Longrightarrow> K b (x # xs) os cs = None"
  shows "star NotSlash K b rs os cs = K (rev (takeWhile seg rs) @ b) (dropWhile seg rs) os cs"
proof (induction rs arbitrary: b)
  case Nil
  then show ?case by simp
next
  case (Cons x xs)
  show ?case
  proof (cases "x = CHR ''/''")
    case True
    then show ?thesis by (simp add: seg_def)
  next
    case False
    then have "star NotSlash K b (x # xs) os cs = star NotSlash K (x # b) xs os cs"
      using assms [of x b xs] by (simp split: option.splits)
    then show ?thesis using False Cons [of "x # b"] by (simp add: seg_def)
  qed
qed

lemma take_drop_whole: "(take n p = l \<and> drop n p = []) = (p = l \<and> length l \<le> n)"
proof
  assume a: "take n p = l \<and> drop n p = []"
  have "take n p @ drop n p = p" by (rule append_take_drop_id)
  with a show "p = l \<and> length l \<le> n" by auto
next
  assume "p = l \<and> length l \<le> n"
  then show "take n p = l \<and> drop n p = []" by simp
qed

lemma talksPath_exec:
  "exec talksPath p = (if p = ''/talks'' then Some \<lparr>index = 0, matched = p, groups = []\<rparr> else None)"
proof -
  have "exec talksPath p = nodes_match (lits ''/talks'') (nodes_match [Eol] (accept 0)) [] p [] []"
    unfolding talksPath_def exec_Bol nodes_match_append ..
  also have "\<dots> = (if take 6 p = ''/talks'' \<and> drop 6 p = [] then Some \<lparr>index = 0, matched = ''/talks'', groups = []\<rparr> else None)"
    by (simp add: lits_match accept_def)
  also have "\<dots> = (if p = ''/talks'' then Some \<lparr>index = 0, matched = p, groups = []\<rparr> else None)"
    unfolding take_drop_whole by simp
  finally show ?thesis .
qed


lemma plus_NotSlash:
  assumes "\<And>b x xs. x \<noteq> CHR ''/'' \<Longrightarrow> K b (x # xs) os cs = None"
  shows "node_match (Plus NotSlash) K b r os cs =
           (if takeWhile seg r \<noteq> [] then K (rev (takeWhile seg r) @ b) (dropWhile seg r) os cs else None)"
proof (cases r)
  case Nil
  then show ?thesis by simp
next
  case (Cons x xs)
  show ?thesis
    unfolding Cons using star_NotSlash [of K os cs "x # b" xs, OF assms]
    by (simp add: seg_def)
qed

lemma captured_segment:
  assumes "\<And>b x xs os cs. x \<noteq> CHR ''/'' \<Longrightarrow> nodes_match ms k b (x # xs) os cs = None"
  shows "nodes_match (Open # Plus NotSlash # Close # ms) k b r [] [] =
           (if takeWhile seg r \<noteq> []
            then nodes_match ms k (rev (takeWhile seg r) @ b) (dropWhile seg r) [] [takeWhile seg r]
            else None)"
proof -
  have fails: "\<And>b' x xs. x \<noteq> CHR ''/'' \<Longrightarrow> nodes_match (Close # ms) k b' (x # xs) [length b] [] = None"
    using assms by simp
  have "nodes_match (Open # Plus NotSlash # Close # ms) k b r [] [] =
          node_match (Plus NotSlash) (nodes_match (Close # ms) k) b r [length b] []"
    by simp
  also have "\<dots> = (if takeWhile seg r \<noteq> []
            then nodes_match (Close # ms) k (rev (takeWhile seg r) @ b) (dropWhile seg r) [length b] []
            else None)"
    by (rule plus_NotSlash) (rule fails)
  also have "\<dots> = (if takeWhile seg r \<noteq> []
            then nodes_match ms k (rev (takeWhile seg r) @ b) (dropWhile seg r) [] [takeWhile seg r]
            else None)"
    by simp
  finally show ?thesis .
qed

lemma prefix_talks:
  "nodes_match (lits ''/talks/'') k [] p [] [] =
     (if take 7 p = ''/talks/'' then k (rev ''/talks/'') (drop 7 p) [] [] else None)"
  by (simp add: lits_match eval_nat_numeral)

lemma suffix_comments:
  "nodes_match (lits ''/comments'' @ [Eol]) (accept 0) b r [] cs =
     (if r = ''/comments'' then accept 0 (rev ''/comments'' @ b) [] [] cs else None)"
proof -
  have "nodes_match (lits ''/comments'' @ [Eol]) (accept 0) b r [] cs =
          (if take 9 r = ''/comments'' \<and> drop 9 r = []
           then accept 0 (rev ''/comments'' @ b) [] [] cs else None)"
    by (simp add: nodes_match_append lits_match eval_nat_numeral)
  then show ?thesis unfolding take_drop_whole by simp
qed

lemma talkPath_exec:
  "exec talkPath p =
     (if take 7 p = ''/talks/'' \<and> takeWhile seg (drop 7 p) \<noteq> [] \<and> dropWhile seg (drop 7 p) = []
      then Some \<lparr>index = 0, matched = p, groups = [takeWhile seg (drop 7 p)]\<rparr> else None)"
proof -
  let ?r = "drop 7 p"
  let ?t = "takeWhile seg ?r"
  have "exec talkPath p =
          nodes_match (lits ''/talks/'') (nodes_match (Open # Plus NotSlash # Close # [Eol]) (accept 0)) [] p [] []"
    unfolding talkPath_def exec_Bol nodes_match_append ..
  also have "\<dots> = (if take 7 p = ''/talks/''
                    then nodes_match (Open # Plus NotSlash # Close # [Eol]) (accept 0) (rev ''/talks/'') ?r [] []
                    else None)"
    by (rule prefix_talks)
  also have "nodes_match (Open # Plus NotSlash # Close # [Eol]) (accept 0) (rev ''/talks/'') ?r [] [] =
               (if ?t \<noteq> [] then nodes_match [Eol] (accept 0) (rev ?t @ rev ''/talks/'') (dropWhile seg ?r) [] [?t]
                else None)"
    by (rule captured_segment) simp
  also have "nodes_match [Eol] (accept 0) (rev ?t @ rev ''/talks/'') (dropWhile seg ?r) [] [?t] =
               (if dropWhile seg ?r = [] then Some \<lparr>index = 0, matched = ''/talks/'' @ ?t, groups = [?t]\<rparr> else None)"
    by (simp add: accept_def)
  finally have e: "exec talkPath p =
      (if take 7 p = ''/talks/'' then
         (if ?t \<noteq> [] then
            (if dropWhile seg ?r = [] then Some \<lparr>index = 0, matched = ''/talks/'' @ ?t, groups = [?t]\<rparr> else None)
          else None)
       else None)" .
  show ?thesis
  proof (cases "take 7 p = ''/talks/'' \<and> ?t \<noteq> [] \<and> dropWhile seg ?r = []")
    case True
    from True have c1: "take 7 p = ''/talks/''" and c3: "dropWhile seg ?r = []" by blast+
    have "?t @ dropWhile seg ?r = ?r" by (rule takeWhile_dropWhile_id)
    then have "?t @ [] = ?r" by (simp only: c3)
    then have t: "?t = ?r" by (simp only: append_Nil2)
    have "take 7 p @ ?r = p" by (rule append_take_drop_id)
    then have "''/talks/'' @ ?r = p" by (simp only: c1)
    then have m: "''/talks/'' @ ?t = p" by (simp only: t)
    show ?thesis unfolding e by (simp only: True m if_True simp_thms)
  next
    case False
    then show ?thesis unfolding e by auto
  qed
qed

lemma talkPathAddComment_exec:
  "exec talkPathAddComment p =
     (if take 7 p = ''/talks/'' \<and> takeWhile seg (drop 7 p) \<noteq> [] \<and>
         dropWhile seg (drop 7 p) = ''/comments''
      then Some \<lparr>index = 0, matched = p, groups = [takeWhile seg (drop 7 p)]\<rparr> else None)"
proof -
  let ?r = "drop 7 p"
  let ?t = "takeWhile seg ?r"
  let ?ms = "lits ''/comments'' @ [Eol]"
  have d: "talkPathAddComment = Bol # lits ''/talks/'' @ (Open # Plus NotSlash # Close # ?ms)"
    by (simp add: talkPathAddComment_def)
  have "exec talkPathAddComment p =
          nodes_match (lits ''/talks/'') (nodes_match (Open # Plus NotSlash # Close # ?ms) (accept 0)) [] p [] []"
    unfolding d exec_Bol nodes_match_append [of "lits ''/talks/''"] ..
  also have "\<dots> = (if take 7 p = ''/talks/''
                    then nodes_match (Open # Plus NotSlash # Close # ?ms) (accept 0) (rev ''/talks/'') ?r [] []
                    else None)"
    by (rule prefix_talks)
  also have "nodes_match (Open # Plus NotSlash # Close # ?ms) (accept 0) (rev ''/talks/'') ?r [] [] =
               (if ?t \<noteq> [] then nodes_match ?ms (accept 0) (rev ?t @ rev ''/talks/'') (dropWhile seg ?r) [] [?t]
                else None)"
    by (rule captured_segment) (simp add: lits_def)
  also have "nodes_match ?ms (accept 0) (rev ?t @ rev ''/talks/'') (dropWhile seg ?r) [] [?t] =
               (if dropWhile seg ?r = ''/comments''
                then Some \<lparr>index = 0, matched = ''/talks/'' @ ?t @ ''/comments'', groups = [?t]\<rparr> else None)"
    unfolding suffix_comments by (simp add: accept_def)
  finally have e: "exec talkPathAddComment p =
      (if take 7 p = ''/talks/'' then
         (if ?t \<noteq> [] then
            (if dropWhile seg ?r = ''/comments''
             then Some \<lparr>index = 0, matched = ''/talks/'' @ ?t @ ''/comments'', groups = [?t]\<rparr> else None)
          else None)
       else None)" .
  show ?thesis
  proof (cases "take 7 p = ''/talks/'' \<and> ?t \<noteq> [] \<and> dropWhile seg ?r = ''/comments''")
    case True
    from True have c1: "take 7 p = ''/talks/''" and c3: "dropWhile seg ?r = ''/comments''" by blast+
    have "?t @ dropWhile seg ?r = ?r" by (rule takeWhile_dropWhile_id)
    then have t: "?t @ ''/comments'' = ?r" by (simp only: c3)
    have "take 7 p @ ?r = p" by (rule append_take_drop_id)
    then have "''/talks/'' @ ?r = p" by (simp only: c1)
    then have m: "''/talks/'' @ ?t @ ''/comments'' = p" by (simp only: t)
    show ?thesis unfolding e by (simp only: True m if_True simp_thms)
  next
    case False
    then show ?thesis unfolding e by auto
  qed
qed


lemma talkPath_not_comments: "exec talkPath p \<noteq> None \<Longrightarrow> exec talkPathAddComment p = None"
  by (simp add: talkPath_exec talkPathAddComment_exec del: dropWhile_eq_Nil_conv split: if_splits)

lemma talkPath_not_talks: "exec talkPath p = None \<or> exec talksPath p = None"
  by (auto simp: talkPath_exec talksPath_exec split: if_splits)

lemma talkPath_refuses_comments: "exec talkPath (''/talks/'' @ x @ ''/comments'') = None"
proof -
  have "\<not> seg (CHR ''/'')" by (simp add: seg_def)
  then have "dropWhile seg (x @ ''/comments'') \<noteq> []"
    by simp
  then show ?thesis by (simp add: talkPath_exec)
qed

lemma comments_refuses_talk:
  assumes "CHR ''/'' \<notin> set x"
  shows "exec talkPathAddComment (''/talks/'' @ x) = None"
proof -
  have "\<forall>c \<in> set x. seg c" using assms by (auto simp: seg_def)
  then have "dropWhile seg x = []" by simp
  then show ?thesis by (simp add: talkPathAddComment_exec del: dropWhile_eq_Nil_conv)
qed

lemma route_anchored:
  assumes "r \<in> set routes" "exec (urlRegEx r) p = Some m"
  shows "index m = 0 \<and> matched m = p"
proof -
  have "urlRegEx r = talkPath \<or> urlRegEx r = talkPathAddComment \<or> urlRegEx r = talksPath"
    using assms(1) by (auto simp: routes_def)
  then show ?thesis
    using assms(2)
    by (auto simp: talkPath_exec talkPathAddComment_exec talksPath_exec split: if_splits)
qed

lemma resolve_find:
  "resolve rs s c req =
     (case find (applies req) rs of
        None \<Rightarrow> Inr None
      | Some r \<Rightarrow>
          (case decode_all (groups (the (exec (urlRegEx r) (pathname req)))) of
             Inl e \<Rightarrow> Inl e
           | Inr urlParts \<Rightarrow> Inr (Some (call (route_handler r) s c urlParts req))))"
  by (induction rs) (auto simp: applies_def split: option.splits)

lemma find_member: "find P xs = Some a \<Longrightarrow> a \<in> set xs \<and> P a"
  by (induction xs) (auto split: if_splits)

lemma find_unique:
  assumes u: "\<And>a b. a \<in> set xs \<Longrightarrow> b \<in> set xs \<Longrightarrow> P a \<Longrightarrow> P b \<Longrightarrow> a = b"
    and e: "set ys = set xs"
  shows "find P ys = find P xs"
proof (cases "find P xs")
  case None
  then have "\<not> (\<exists>x. x \<in> set ys \<and> P x)" using e by (simp add: find_None_iff)
  then have "find P ys = None" by (simp add: find_None_iff)
  with None show ?thesis by simp
next
  case (Some a)
  then have a: "a \<in> set xs" "P a" using find_member by fastforce+
  then have "\<exists>x. x \<in> set ys \<and> P x" using e by auto
  then obtain b where b: "find P ys = Some b"
    by (cases "find P ys") (auto simp: find_None_iff)
  then have "b \<in> set xs" "P b" using find_member [of P ys b] e by auto
  with a have "a = b" by (rule_tac u)
  with b Some show ?thesis by simp
qed

lemma routes_unique:
  assumes "a \<in> set routes" "b \<in> set routes" "applies req a" "applies req b"
  shows "a = b"
proof -
  have m: "route_method a = route_method b" using assms(3,4) by (simp add: applies_def)
  have x: "exec talkPath (pathname req) = None \<or> exec talksPath (pathname req) = None"
    by (rule talkPath_not_talks)
  show ?thesis
    using assms(1,2) m x assms(3,4) unfolding routes_def applies_def
    by auto
qed

lemma resolve_any_order:
  assumes "mset rs = mset routes"
  shows "resolve rs s c req = resolve routes s c req"
proof -
  have "set rs = set routes" using assms by (rule mset_eq_setD)
  then have "find (applies req) rs = find (applies req) routes"
    using routes_unique by (intro find_unique) auto
  then show ?thesis by (simp add: resolve_find)
qed

section \<open>Resolving the waiters\<close>

lemma resolve_waiter_fields:
  "talks (resolve_waiter w r s) = talks s" "version (resolve_waiter w r s) = version s"
  "waiting (resolve_waiter w r s) = waiting s" "saved (resolve_waiter w r s) = saved s"
  "timers (resolve_waiter w r s) = timers s" "next_id (resolve_waiter w r s) = next_id s"
  "closed (resolve_waiter w r s) = closed s" "delegated (resolve_waiter w r s) = delegated s"
  by (simp_all add: resolve_waiter_def respond_def)

lemma settled_key: "(w \<in> set (map fst (settled s))) = (map_of (settled s) w \<noteq> None)"
  by (simp add: map_of_eq_None_iff)

lemma resolve_waiter_settled:
  "map_of (settled (resolve_waiter w r s)) x =
     (if x = w \<and> map_of (settled s) w = None then Some r else map_of (settled s) x)"
proof (cases "map_of (settled s) w")
  case None
  then have "resolve_waiter w r s = respond w r (s\<lparr>settled := settled s @ [(w, r)]\<rparr>)"
    unfolding resolve_waiter_def settled_key by simp
  then show ?thesis
    using None by (cases "map_of (settled s) x") (auto simp: respond_def map_add_def)
next
  case (Some v)
  then have "resolve_waiter w r s = s"
    unfolding resolve_waiter_def settled_key by simp
  then show ?thesis using Some by simp
qed

lemma resolve_waiter_written:
  "set (written (resolve_waiter w r s)) =
     (if map_of (settled s) w = None then insert (w, defaults r) (set (written s)) else set (written s))"
  unfolding resolve_waiter_def settled_key by (auto simp: respond_def)

lemma fold_resolve_fields:
  "talks (fold (\<lambda>w. resolve_waiter w r) ws s) = talks s"
  "version (fold (\<lambda>w. resolve_waiter w r) ws s) = version s"
  "saved (fold (\<lambda>w. resolve_waiter w r) ws s) = saved s"
  "timers (fold (\<lambda>w. resolve_waiter w r) ws s) = timers s"
  "next_id (fold (\<lambda>w. resolve_waiter w r) ws s) = next_id s"
  "closed (fold (\<lambda>w. resolve_waiter w r) ws s) = closed s"
  "delegated (fold (\<lambda>w. resolve_waiter w r) ws s) = delegated s"
  by (induction ws arbitrary: s; simp add: resolve_waiter_fields)+

lemma fold_resolve_settled:
  "map_of (settled (fold (\<lambda>w. resolve_waiter w r) ws s)) x =
     (if x \<in> set ws \<and> map_of (settled s) x = None then Some r else map_of (settled s) x)"
  by (induction ws arbitrary: s) (auto simp: resolve_waiter_settled)

lemma fold_resolve_written:
  "set (written (fold (\<lambda>w. resolve_waiter w r) ws s)) =
     set (written s) \<union> {(w, defaults r) | w. w \<in> set ws \<and> map_of (settled s) w = None}"
  by (induction ws arbitrary: s) (auto simp: resolve_waiter_written resolve_waiter_settled split: if_splits)

lemma updated_fields:
  "version (updated s) = version s + 1" "talks (updated s) = talks s" "waiting (updated s) = []"
  "saved (updated s) = saved s @ [talks s]" "timers (updated s) = timers s" "next_id (updated s) = next_id s"
  by (simp_all add: updated_def Let_def writeTalks_def fold_resolve_fields)

lemma talkResponse_cong: "talks a = talks b \<Longrightarrow> version a = version b \<Longrightarrow> talkResponse a = talkResponse b"
  by (simp add: talkResponse_def)

lemma updated_writes:
  assumes "w \<in> set (waiting s)" "map_of (settled s) w = None"
  shows "(w, defaults (talkResponse (updated s))) \<in> set (written (updated s))"
proof -
  let ?s1 = "s\<lparr>version := version s + 1\<rparr>"
  have r: "talkResponse (updated s) = talkResponse ?s1"
    by (rule talkResponse_cong) (simp_all add: updated_fields)
  have "written (updated s) = written (fold (\<lambda>w. resolve_waiter w (talkResponse ?s1)) (waiting s) ?s1)"
    by (simp add: updated_def Let_def writeTalks_def)
  then show ?thesis
    unfolding r using assms by (simp add: fold_resolve_written)
qed

section \<open>The router on the table of routes\<close>

lemma talkPath_groups: "exec talkPath p = Some m \<Longrightarrow> \<exists>g. groups m = [g]"
  by (auto simp: talkPath_exec split: if_splits)

lemma talkPathAddComment_groups: "exec talkPathAddComment p = Some m \<Longrightarrow> \<exists>g. groups m = [g]"
  by (auto simp: talkPathAddComment_exec split: if_splits)

lemma decode_one: "decode_all [g] = (case decodeURIComponent g of Inl e \<Rightarrow> Inl e | Inr t \<Rightarrow> Inr [t])"
  by (simp split: sum.splits)

lemma via_pattern:
  assumes "\<And>m. exec re (pathname req) = Some m \<Longrightarrow> \<exists>g. groups m = [g]"
  shows "(case exec re (pathname req) of
            None \<Rightarrow> Inr None
          | Some m \<Rightarrow>
              (case decode_all (groups m) of
                 Inl e \<Rightarrow> Inl e
               | Inr urlParts \<Rightarrow> Inr (Some (call h s c urlParts req)))) = Inr x \<Longrightarrow>
         x = (case addressed re req of None \<Rightarrow> None | Some t \<Rightarrow> Some (call h s c [t] req))"
  using assms
  by (cases "exec re (pathname req)") (auto simp: addressed_def decode_one split: sum.splits)

lemma resolve_Cons:
  "resolve (\<lparr>route_method = m, urlRegEx = re, route_handler = h\<rparr> # rs) s c req =
     (if request_method req = m
      then (case exec re (pathname req) of
              None \<Rightarrow> resolve rs s c req
            | Some mt \<Rightarrow>
                (case decode_all (groups mt) of
                   Inl e \<Rightarrow> Inl e
                 | Inr urlParts \<Rightarrow> Inr (Some (call h s c urlParts req))))
      else resolve rs s c req)"
  by (simp split: option.splits sum.splits)

lemma resolve_PUT:
  assumes "request_method req = ''PUT''" "resolve routes s c req = Inr x"
  shows "x = (case addressed talkPath req of None \<Rightarrow> None | Some t \<Rightarrow> Some (put_talk s t req))"
proof -
  have "resolve routes s c req =
      (case exec talkPath (pathname req) of
            None \<Rightarrow> Inr None
          | Some m \<Rightarrow>
              (case decode_all (groups m) of
                 Inl e \<Rightarrow> Inl e
               | Inr urlParts \<Rightarrow> Inr (Some (call Put_talk s c urlParts req))))"
    using assms(1) by (simp add: routes_def resolve_Cons del: resolve.simps(2) split: option.splits)
  with assms(2) show ?thesis
    using via_pattern [of talkPath req Put_talk s c x] talkPath_groups by (simp split: option.splits)
qed

lemma resolve_DELETE:
  assumes "request_method req = ''DELETE''" "resolve routes s c req = Inr x"
  shows "x = (case addressed talkPath req of None \<Rightarrow> None | Some t \<Rightarrow> Some (delete_talk s t))"
proof -
  have "resolve routes s c req =
      (case exec talkPath (pathname req) of
            None \<Rightarrow> Inr None
          | Some m \<Rightarrow>
              (case decode_all (groups m) of
                 Inl e \<Rightarrow> Inl e
               | Inr urlParts \<Rightarrow> Inr (Some (call Delete_talk s c urlParts req))))"
    using assms(1) by (simp add: routes_def resolve_Cons del: resolve.simps(2) split: option.splits)
  with assms(2) show ?thesis
    using via_pattern [of talkPath req Delete_talk s c x] talkPath_groups by (simp split: option.splits)
qed

lemma resolve_POST:
  assumes "request_method req = ''POST''" "resolve routes s c req = Inr x"
  shows "x = (case addressed talkPathAddComment req of None \<Rightarrow> None | Some t \<Rightarrow> Some (post_comment s t req))"
proof -
  have "resolve routes s c req =
      (case exec talkPathAddComment (pathname req) of
            None \<Rightarrow> Inr None
          | Some m \<Rightarrow>
              (case decode_all (groups m) of
                 Inl e \<Rightarrow> Inl e
               | Inr urlParts \<Rightarrow> Inr (Some (call Post_comment s c urlParts req))))"
    using assms(1) by (simp add: routes_def resolve_Cons del: resolve.simps(2) split: option.splits)
  with assms(2) show ?thesis
    using via_pattern [of talkPathAddComment req Post_comment s c x] talkPathAddComment_groups by (simp split: option.splits)
qed

lemma resolve_GET:
  assumes "request_method req = ''GET''" "resolve routes s c req = Inr x"
  shows "x = (case addressed talkPath req of
                None \<Rightarrow> if pathname req = ''/talks'' then Some (get_talks s c req) else None
              | Some t \<Rightarrow> Some (get_talk s t))"
proof (cases "exec talkPath (pathname req)")
  case None
  then have a: "addressed talkPath req = None" by (simp add: addressed_def)
  have "resolve routes s c req =
      (if pathname req = ''/talks'' then Inr (Some (get_talks s c req)) else Inr None)"
    using assms(1) None by (simp add: routes_def resolve_Cons talksPath_exec del: resolve.simps(2) split: option.splits)
  with assms(2) a show ?thesis by (simp split: if_splits)
next
  case (Some m)
  then have "resolve routes s c req =
      (case exec talkPath (pathname req) of
            None \<Rightarrow> Inr None
          | Some m \<Rightarrow>
              (case decode_all (groups m) of
                 Inl e \<Rightarrow> Inl e
               | Inr urlParts \<Rightarrow> Inr (Some (call Get_talk s c urlParts req))))"
    using assms(1) by (simp add: routes_def resolve_Cons del: resolve.simps(2) split: option.splits)
  with assms(2) have x: "x = (case addressed talkPath req of None \<Rightarrow> None | Some t \<Rightarrow> Some (get_talk s t))"
    using via_pattern [of talkPath req Get_talk s c x] talkPath_groups by (simp split: option.splits)
  have "pathname req \<noteq> ''/talks''"
    using Some talkPath_not_talks [of "pathname req"] by (auto simp: talksPath_exec)
  with x show ?thesis by (simp split: option.splits)
qed

lemma resolve_other:
  assumes "request_method req \<notin> {''GET'', ''PUT'', ''DELETE'', ''POST''}"
  shows "resolve routes s c req = Inr None"
  using assms by (simp add: routes_def resolve_Cons del: resolve.simps(2) split: option.splits)


lemma via_pattern_Some:
  assumes "\<And>m. exec re (pathname req) = Some m \<Longrightarrow> \<exists>g. groups m = [g]"
    and "addressed re req = Some t"
  shows "(case exec re (pathname req) of
            None \<Rightarrow> Inr None
          | Some m \<Rightarrow>
              (case decode_all (groups m) of
                 Inl e \<Rightarrow> Inl e
               | Inr urlParts \<Rightarrow> Inr (Some (call h s c urlParts req)))) =
         Inr (Some (call h s c [t] req))"
  using assms
  by (cases "exec re (pathname req)") (auto simp: addressed_def decode_one split: sum.splits)

lemma resolve_PUT_at:
  assumes "request_method req = ''PUT''" "addressed talkPath req = Some t"
  shows "resolve routes s c req = Inr (Some (put_talk s t req))"
proof -
  have "resolve routes s c req =
      (case exec talkPath (pathname req) of
            None \<Rightarrow> Inr None
          | Some m \<Rightarrow>
              (case decode_all (groups m) of
                 Inl e \<Rightarrow> Inl e
               | Inr urlParts \<Rightarrow> Inr (Some (call Put_talk s c urlParts req))))"
    using assms(1) by (simp add: routes_def resolve_Cons del: resolve.simps(2) split: option.splits)
  then show ?thesis
    using via_pattern_Some [of talkPath req t Put_talk s c] talkPath_groups assms(2) by simp
qed

lemma resolve_DELETE_at:
  assumes "request_method req = ''DELETE''" "addressed talkPath req = Some t"
  shows "resolve routes s c req = Inr (Some (delete_talk s t))"
proof -
  have "resolve routes s c req =
      (case exec talkPath (pathname req) of
            None \<Rightarrow> Inr None
          | Some m \<Rightarrow>
              (case decode_all (groups m) of
                 Inl e \<Rightarrow> Inl e
               | Inr urlParts \<Rightarrow> Inr (Some (call Delete_talk s c urlParts req))))"
    using assms(1) by (simp add: routes_def resolve_Cons del: resolve.simps(2) split: option.splits)
  then show ?thesis
    using via_pattern_Some [of talkPath req t Delete_talk s c] talkPath_groups assms(2) by simp
qed

lemma resolve_POST_at:
  assumes "request_method req = ''POST''" "addressed talkPathAddComment req = Some t"
  shows "resolve routes s c req = Inr (Some (post_comment s t req))"
proof -
  have "resolve routes s c req =
      (case exec talkPathAddComment (pathname req) of
            None \<Rightarrow> Inr None
          | Some m \<Rightarrow>
              (case decode_all (groups m) of
                 Inl e \<Rightarrow> Inl e
               | Inr urlParts \<Rightarrow> Inr (Some (call Post_comment s c urlParts req))))"
    using assms(1) by (simp add: routes_def resolve_Cons del: resolve.simps(2) split: option.splits)
  then show ?thesis
    using via_pattern_Some [of talkPathAddComment req t Post_comment s c] talkPathAddComment_groups assms(2)
    by simp
qed

lemma resolve_list:
  assumes "request_method req = ''GET''" "pathname req = ''/talks''"
  shows "resolve routes s c req = Inr (Some (get_talks s c req))"
proof -
  have "exec talkPath ''/talks'' = None" by (simp add: talkPath_exec)
  then show ?thesis
    using assms by (simp add: routes_def resolve_Cons talksPath_exec del: resolve.simps(2))
qed

lemma has_strings_code:
  "has_strings a b v =
     (\<not> (falsy v \<or> string_of (property v a) = None \<or> string_of (property v b) = None))"
proof (cases v)
  case (JObject ps)
  have s: "\<And>x. (string_of x = None) = (\<forall>t. x \<noteq> Some (JString t))"
    by (induct_tac x rule: string_of.induct) simp_all
  show ?thesis
    unfolding JObject has_strings_def
    by (auto simp: s split: option.splits json.splits)
qed (simp_all add: has_strings_def)

lemma has_strings_values:
  "has_strings a b v \<Longrightarrow> \<exists>x y. string_of (property v a) = Some x \<and> string_of (property v b) = Some y"
  by (auto simp: has_strings_code)

lemma respond_fields:
  "talks (respond c r s) = talks s" "version (respond c r s) = version s"
  "waiting (respond c r s) = waiting s" "settled (respond c r s) = settled s"
  "timers (respond c r s) = timers s" "saved (respond c r s) = saved s"
  "next_id (respond c r s) = next_id s" "written (respond c r s) = written s @ [(c, defaults r)]"
  by (simp_all add: respond_def)

lemma settle_fields:
  "talks (settle c out s) = talks s" "version (settle c out s) = version s"
  "waiting (settle c out s) = waiting s" "timers (settle c out s) = timers s"
  "settled (settle c out s) = settled s" "saved (settle c out s) = saved s"
  by (cases out; simp add: settle_def respond_fields)+

lemma get_talk_state: "fst (get_talk s t) = s"
  by (simp add: get_talk_def split: option.splits)

lemma get_talk_version: "get_talk s t = (s1, out) \<Longrightarrow> version s1 = version s"
  using get_talk_state [of s t] by simp

lemma delete_talk_version:
  "version (fst (delete_talk s t)) = version s + (if has_key t (talks s) then 1 else 0)"
  by (simp add: delete_talk_def updated_fields)

lemma put_talk_version:
  "version (fst (put_talk s t req)) = version s + (if body_is talk_object req then 1 else 0)"
proof (cases "stream req")
  case (Parsed v)
  show ?thesis
  proof (cases "talk_object v")
    case True
    then obtain x y where "string_of (property v ''presenter'') = Some x"
        "string_of (property v ''summary'') = Some y" "\<not> falsy v"
      unfolding talk_object_def using has_strings_values has_strings_code by blast
    then show ?thesis
      using True Parsed by (simp add: put_talk_def body_is_def updated_fields)
  next
    case False
    then have "falsy v \<or> string_of (property v ''presenter'') = None \<or>
        string_of (property v ''summary'') = None"
      by (simp add: talk_object_def has_strings_code)
    then show ?thesis
      using False Parsed
      by (auto simp: put_talk_def body_is_def split: bool.splits option.splits)
  qed
qed (simp_all add: put_talk_def body_is_def)

lemma post_comment_version:
  "version (fst (post_comment s t req)) =
     version s + (if has_key t (talks s) \<and> body_is comment_object req then 1 else 0)"
  by (cases "stream req")
    (simp_all add: post_comment_def body_is_def comment_object_def has_strings_code updated_fields)

lemma get_talks_version: "version (fst (get_talks s c req)) = version s"
  by (simp add: get_talks_def Let_def waitForChanges_def split: option.splits)

lemma put_talk_pair:
  "put_talk s t req = (s1, out) \<Longrightarrow>
     version s1 = version s + (if body_is talk_object req then 1 else 0)"
  using put_talk_version [of s t req] by simp

lemma delete_talk_pair:
  "delete_talk s t = (s1, out) \<Longrightarrow>
     version s1 = version s + (if has_key t (talks s) then 1 else 0)"
  using delete_talk_version [of s t] by simp

lemma post_comment_pair:
  "post_comment s t req = (s1, out) \<Longrightarrow>
     version s1 = version s + (if has_key t (talks s) \<and> body_is comment_object req then 1 else 0)"
  using post_comment_version [of s t req] by simp

lemma get_talks_pair: "get_talks s c req = (s1, out) \<Longrightarrow> version s1 = version s"
  using get_talks_version [of s c req] by simp

lemma serve_Inr:
  assumes "serve rs s req = Inr s'"
  shows "\<exists>x. resolve rs (s\<lparr>next_id := next_id s + 1\<rparr>) (next_id s) req = Inr x \<and>
           s' = (case x of
                   None \<Rightarrow> s\<lparr>next_id := next_id s + 1, delegated := delegated s @ [next_id s]\<rparr>
                 | Some (s1, out) \<Rightarrow> settle (next_id s) out s1)"
  using assms by (auto simp: serve_def Let_def split: sum.splits option.splits)

lemma step_version:
  assumes "step s e = Inr s'"
  shows "version s' = version s + (if mutates s e then 1 else 0)"
proof (cases e)
  case (Request req)
  let ?s0 = "s\<lparr>next_id := next_id s + 1\<rparr>"
  let ?c = "next_id s"
  from assms Request obtain x where x: "resolve routes ?s0 ?c req = Inr x"
    and s': "s' = (case x of
                   None \<Rightarrow> s\<lparr>next_id := next_id s + 1, delegated := delegated s @ [next_id s]\<rparr>
                 | Some (s1, out) \<Rightarrow> settle (next_id s) out s1)"
    using serve_Inr [of routes s req s'] by auto
  consider (get) "request_method req = ''GET''" | (put) "request_method req = ''PUT''"
    | (del) "request_method req = ''DELETE''" | (post) "request_method req = ''POST''"
    | (other) "request_method req \<notin> {''GET'', ''PUT'', ''DELETE'', ''POST''}"
    by auto
  then show ?thesis
  proof cases
    case get
    then have m: "\<not> mutates s e" using Request by simp
    have "version s' = version s"
      using resolve_GET [OF get x] s'
      by (auto simp: settle_fields dest: get_talk_version get_talks_pair
          split: option.splits if_splits prod.splits)
    with m show ?thesis by simp
  next
    case put
    then have m: "mutates s e = (addressed talkPath req \<noteq> None \<and> body_is talk_object req)"
      using Request by simp
    show ?thesis
      using resolve_PUT [OF put x] s' unfolding m
      by (auto simp: settle_fields dest: put_talk_pair split: option.splits prod.splits)
  next
    case del
    then have m: "mutates s e = present s (addressed talkPath req)"
      using Request by simp
    show ?thesis
      using resolve_DELETE [OF del x] s' unfolding m
      by (auto simp: settle_fields present_def dest: delete_talk_pair split: option.splits prod.splits)
  next
    case post
    then have m: "mutates s e = (present s (addressed talkPathAddComment req) \<and> body_is comment_object req)"
      using Request by simp
    show ?thesis
      using resolve_POST [OF post x] s' unfolding m
      by (auto simp: settle_fields present_def dest: post_comment_pair split: option.splits prod.splits)
  next
    case other
    then have m: "\<not> mutates s e" using Request by auto
    have "x = None" using resolve_other [OF other, of ?s0 ?c] x by simp
    with s' m show ?thesis by simp
  qed
next
  case (Timer w)
  with assms show ?thesis by (auto simp: timeout_def)
next
  case (Disconnect c)
  with assms show ?thesis by auto
qed

lemma run_version: "version (fst (run s es)) = version s + mutations s es"
proof (induction es arbitrary: s)
  case Nil
  then show ?case by simp
next
  case (Cons e es)
  show ?case
  proof (cases "step s e")
    case (Inl x)
    then show ?thesis by simp
  next
    case (Inr s')
    then show ?thesis
      using Cons [of s'] step_version [OF Inr] by simp
  qed
qed

section \<open>Routing\<close>

text \<open>
  C5. Route matching is anchored: a pattern of a registered route matches a path only
  as a whole (the match starts at 0 and is the path). The pattern of a talk does not
  match the path of the comments of a talk, the pattern of the comments does not match
  the path of a talk, and the router chooses the same for every order in which the
  routes of the table are registered.
\<close>

theorem anchored_matching:
  "(\<forall>r \<in> set routes. \<forall>m. exec (urlRegEx r) p = Some m \<longrightarrow> index m = 0 \<and> matched m = p) \<and>
   exec talkPath (''/talks/'' @ x @ ''/comments'') = None \<and>
   (CHR ''/'' \<notin> set x \<longrightarrow> exec talkPathAddComment (''/talks/'' @ x) = None) \<and>
   (exec talkPath p = None \<or> exec talkPathAddComment p = None) \<and>
   (mset rs = mset routes \<longrightarrow> resolve rs s c req = resolve routes s c req)"
proof (intro conjI ballI allI impI)
  fix r m
  assume "r \<in> set routes" "exec (urlRegEx r) p = Some m"
  then show "index m = 0" "matched m = p"
    using route_anchored [of r p m] by simp_all
next
  show "exec talkPath (''/talks/'' @ x @ ''/comments'') = None"
    by (rule talkPath_refuses_comments)
next
  assume "CHR ''/'' \<notin> set x"
  then show "exec talkPathAddComment (''/talks/'' @ x) = None"
    by (rule comments_refuses_talk)
next
  show "exec talkPath p = None \<or> exec talkPathAddComment p = None"
    using talkPath_not_comments [of p] by fastforce
next
  assume "mset rs = mset routes"
  then show "resolve rs s c req = resolve routes s c req"
    by (rule resolve_any_order)
qed

theorem anchored_matching_witness:
  "\<lparr>route_method = ''POST'', urlRegEx = talkPathAddComment, route_handler = Post_comment\<rparr> \<in> set routes \<and>
   exec talkPathAddComment ''/talks/x/comments'' =
     Some \<lparr>index = 0, matched = ''/talks/x/comments'', groups = [''x'']\<rparr> \<and>
   exec talkPath ''/talks/x/comments'' = None \<and>
   CHR ''/'' \<notin> set ''x'' \<and>
   exec talkPathAddComment ''/talks/x'' = None \<and>
   mset (rev routes) = mset routes \<and>
   resolve (rev routes) (SkillShareServer []) 0
     \<lparr>request_method = ''POST'', pathname = ''/talks/x/comments'', if_none_match = None,
        prefer_header = None, stream = Invalid_JSON\<rparr> =
   resolve routes (SkillShareServer []) 0
     \<lparr>request_method = ''POST'', pathname = ''/talks/x/comments'', if_none_match = None,
        prefer_header = None, stream = Invalid_JSON\<rparr>"
proof -
  note t = anchored_matching [of "''/talks/x/comments''" "''x''" "rev routes" "SkillShareServer []" 0
      "\<lparr>request_method = ''POST'', pathname = ''/talks/x/comments'', if_none_match = None,
        prefer_header = None, stream = Invalid_JSON\<rparr>"]
  have r: "\<lparr>route_method = ''POST'', urlRegEx = talkPathAddComment, route_handler = Post_comment\<rparr> \<in> set routes"
    by (simp add: routes_def)
  have e: "exec talkPathAddComment ''/talks/x/comments'' =
     Some \<lparr>index = 0, matched = ''/talks/x/comments'', groups = [''x'']\<rparr>"
    by code_simp
  have n: "CHR ''/'' \<notin> set ''x''" by simp
  have m: "mset (rev routes) = mset routes" by simp
  from t have "exec talkPath ''/talks/x/comments'' = None" by simp
  moreover from t n have "exec talkPathAddComment ''/talks/x'' = None" by simp
  moreover from t m have "resolve (rev routes) (SkillShareServer []) 0
     \<lparr>request_method = ''POST'', pathname = ''/talks/x/comments'', if_none_match = None,
        prefer_header = None, stream = Invalid_JSON\<rparr> =
   resolve routes (SkillShareServer []) 0
     \<lparr>request_method = ''POST'', pathname = ''/talks/x/comments'', if_none_match = None,
        prefer_header = None, stream = Invalid_JSON\<rparr>" by simp
  ultimately show ?thesis using r e n m by simp
qed

section \<open>The version\<close>

lemma addressed_Intro: "addressed talkPath (request_of m ''/talks/Intro'') = Some ''Intro''"
  unfolding addressed_def request_of_def by code_simp

lemma addressed_Unknown: "addressed talkPath (request_of m ''/talks/Unknown'') = Some ''Unknown''"
  unfolding addressed_def request_of_def by code_simp

text \<open>
  C4. The version starts at 0. A step that does not end the process adds 1 to it when
  it is a successful mutation (a talk put with a valid body, a talk that is there
  deleted, a comment with a valid body appended to a talk that is there) and nothing
  otherwise, so over every run the version never decreases and grows by the number of
  successful mutations. Deleting a title that is absent answers 204 and leaves the
  version and the talks as they were.
\<close>

theorem version_counts_mutations:
  "version (start loaded) = 0 \<and>
   version (fst (run s es)) = version s + mutations s es \<and>
   version s \<le> version (fst (run s es)) \<and>
   (step s e = Inr s' \<longrightarrow> version s' = version s + (if mutates s e then 1 else 0)) \<and>
   (request_method req = ''DELETE'' \<and> addressed talkPath req = Some t \<and> \<not> has_key t (talks s) \<longrightarrow>
      (\<exists>s''. step s (Request req) = Inr s'' \<and> version s'' = version s \<and> talks s'' = talks s \<and>
         written s'' = written s @
           [(next_id s, \<lparr>wire_status = 204, wire_headers = defaultHeaders, wire_body = None\<rparr>)]))"
proof (intro conjI impI)
  show "version (start loaded) = 0"
    by (cases loaded) (simp_all add: start_def SkillShareServer_def)
next
  show "version (fst (run s es)) = version s + mutations s es" by (rule run_version)
next
  show "version s \<le> version (fst (run s es))" by (simp add: run_version)
next
  assume "step s e = Inr s'"
  then show "version s' = version s + (if mutates s e then 1 else 0)" by (rule step_version)
next
  assume a: "request_method req = ''DELETE'' \<and> addressed talkPath req = Some t \<and> \<not> has_key t (talks s)"
  then have "resolve routes (s\<lparr>next_id := next_id s + 1\<rparr>) (next_id s) req =
      Inr (Some (delete_talk (s\<lparr>next_id := next_id s + 1\<rparr>) t))"
    using resolve_DELETE_at by simp
  then have "step s (Request req) = Inr (respond (next_id s) (only_status 204) (s\<lparr>next_id := next_id s + 1\<rparr>))"
    using a by (simp add: serve_def Let_def delete_talk_def settle_def)
  then show "\<exists>s''. step s (Request req) = Inr s'' \<and> version s'' = version s \<and> talks s'' = talks s \<and>
         written s'' = written s @
           [(next_id s, \<lparr>wire_status = 204, wire_headers = defaultHeaders, wire_body = None\<rparr>)]"
    by (simp add: respond_def defaults_def only_status_def)
qed

theorem version_counts_mutations_witness:
  "version (start None) = 0 \<and>
   mutations (start None)
     [Request ((request_of ''PUT'' ''/talks/Intro'') \<lparr>stream := Parsed ann\<rparr>),
      Request (request_of ''DELETE'' ''/talks/Unknown''),
      Request (request_of ''DELETE'' ''/talks/Intro'')] = 2 \<and>
   version (fst (run (start None)
     [Request ((request_of ''PUT'' ''/talks/Intro'') \<lparr>stream := Parsed ann\<rparr>),
      Request (request_of ''DELETE'' ''/talks/Unknown''),
      Request (request_of ''DELETE'' ''/talks/Intro'')])) = 2 \<and>
   request_method (request_of ''DELETE'' ''/talks/Unknown'') = ''DELETE'' \<and>
   addressed talkPath (request_of ''DELETE'' ''/talks/Unknown'') = Some ''Unknown'' \<and>
   \<not> has_key ''Unknown'' (talks (start None)) \<and>
   step (start None) (Request (request_of ''DELETE'' ''/talks/Unknown'')) =
     Inr (respond 0 (only_status 204) ((start None) \<lparr>next_id := 1\<rparr>)) \<and>
   \<not> mutates (start None) (Request (request_of ''DELETE'' ''/talks/Unknown'')) \<and>
   version (respond 0 (only_status 204) ((start None) \<lparr>next_id := 1\<rparr>)) = 0"
proof -
  let ?put = "Request ((request_of ''PUT'' ''/talks/Intro'') \<lparr>stream := Parsed ann\<rparr>)"
  let ?del = "request_of ''DELETE'' ''/talks/Unknown''"
  let ?es = "[?put, Request ?del, Request (request_of ''DELETE'' ''/talks/Intro'')]"
  let ?s1 = "respond 0 (only_status 204) ((start None) \<lparr>next_id := 1\<rparr>)"
  note t = version_counts_mutations [of None "start None" ?es "Request ?del" ?s1 ?del "''Unknown''"]
  have m: "mutations (start None) ?es = 2" by code_simp
  have a: "addressed talkPath ?del = Some ''Unknown''" by code_simp
  have d: "request_method ?del = ''DELETE''" by (simp add: request_of_def)
  have k: "\<not> has_key ''Unknown'' (talks (start None))"
    by (simp add: has_key_def start_def SkillShareServer_def)
  have s: "step (start None) (Request ?del) = Inr ?s1" by code_simp
  have n: "\<not> mutates (start None) (Request ?del)" using a k d by (simp add: present_def)
  from t m have "version (fst (run (start None) ?es)) = 2" by simp
  moreover from t s n have "version ?s1 = 0" by simp
  moreover from t have "version (start None) = 0" by simp
  ultimately show ?thesis using m a d k s n by simp
qed

section \<open>The list handler\<close>

lemma zero_current: "loosely_equal ''0'' 0"
proof -
  have "StringToNumber ''0'' = MV 0" by code_simp
  then show ?thesis by (simp add: loosely_equal_def rounds_to_def)
qed

lemma empty_current: "loosely_equal [] 0"
  by (simp add: loosely_equal_def StringToNumber_def trim_def rounds_to_def)

lemma step_list:
  assumes "request_method req = ''GET''" "pathname req = ''/talks''"
  shows "step s (Request req) =
           Inr (case get_talks (s\<lparr>next_id := next_id s + 1\<rparr>) (next_id s) req of
                  (s1, out) \<Rightarrow> settle (next_id s) out s1)"
  using resolve_list [OF assms] by (simp add: serve_def Let_def split: prod.splits)

lemma get_talks_stale:
  assumes "exec tagPattern (header_text (if_none_match req)) = None \<or>
           (exec tagPattern (header_text (if_none_match req)) = Some m \<and> groups m = [g] \<and>
            \<not> loosely_equal g (version s))"
  shows "get_talks s c req = (s, Fulfilled (talkResponse s))"
  using assms by (auto simp: get_talks_def Let_def differs_def first_group_def)

lemma get_talks_current:
  assumes "exec tagPattern (header_text (if_none_match req)) = Some m" "groups m = [g]"
    "loosely_equal g (version s)" "exec waitPattern (header_text (prefer_header req)) = None"
  shows "get_talks s c req = (s, Fulfilled (only_status 304))"
  using assms by (simp add: get_talks_def Let_def differs_def first_group_def)

lemma get_talks_wait:
  assumes "exec tagPattern (header_text (if_none_match req)) = Some m" "groups m = [g]"
    "loosely_equal g (version s)" "exec waitPattern (header_text (prefer_header req)) = Some w"
    "groups w = [n]"
  shows "get_talks s c req = (waitForChanges c (StringToNumber n) s, Pending c)"
  using assms by (simp add: get_talks_def Let_def differs_def first_group_def Number_def)

lemma tag_zero:
  "exec tagPattern (header_text (Some (quoted ''0''))) =
     Some \<lparr>index = 0, matched = quoted ''0'', groups = [''0'']\<rparr>"
  by code_simp

lemma tag_empty:
  "exec tagPattern (header_text (Some (quoted []))) =
     Some \<lparr>index = 0, matched = quoted [], groups = [[]]\<rparr>"
  by code_simp

lemma wait_zero:
  "exec waitPattern (header_text (Some ''wait=0'')) =
     Some \<lparr>index = 0, matched = ''wait=0'', groups = [''0'']\<rparr>"
  by code_simp

lemma wait_absent: "exec waitPattern (header_text None) = None"
  by code_simp

lemma poll_fields:
  "request_method (poll t w) = ''GET''" "pathname (poll t w) = ''/talks''"
  "if_none_match (poll t w) = t" "prefer_header (poll t w) = w"
  by (simp_all add: poll_def request_of_def)

text \<open>
  C1. A waiter whose deadline passes without an update should be answered 304 and leave
  the pending set. Here a fresh server gets the list request with the current tag and
  \<open>wait=0\<close>, which registers waiter 0, and then the timeout fires: the waiter leaves the
  pending set, but its promise is not settled and no response is written.
\<close>

theorem timeout_never_answers:
  "step (start None) (Request (poll (Some (quoted ''0'')) (Some ''wait=0''))) =
     Inr (waitForChanges 0 (StringToNumber ''0'') ((start None) \<lparr>next_id := 1\<rparr>)) \<and>
   waiting (waitForChanges 0 (StringToNumber ''0'') ((start None) \<lparr>next_id := 1\<rparr>)) = [0] \<and>
   step (waitForChanges 0 (StringToNumber ''0'') ((start None) \<lparr>next_id := 1\<rparr>)) (Timer 0) =
     Inr ((start None) \<lparr>next_id := 1\<rparr>) \<and>
   waiting ((start None) \<lparr>next_id := 1\<rparr>) = [] \<and>
   settled ((start None) \<lparr>next_id := 1\<rparr>) = [] \<and>
   written ((start None) \<lparr>next_id := 1\<rparr>) = []"
proof -
  let ?req = "poll (Some (quoted ''0'')) (Some ''wait=0'')"
  let ?s0 = "(start None) \<lparr>next_id := 1\<rparr>"
  have v: "version (start None) = 0" by (simp add: start_def SkillShareServer_def)
  have "get_talks ?s0 0 ?req = (waitForChanges 0 (StringToNumber ''0'') ?s0, Pending 0)"
    using get_talks_wait [of ?req "\<lparr>index = 0, matched = quoted ''0'', groups = [''0'']\<rparr>" "''0''" ?s0
        "\<lparr>index = 0, matched = ''wait=0'', groups = [''0'']\<rparr>" "''0''" 0]
    by (simp add: poll_fields tag_zero wait_zero v zero_current)
  then have a: "step (start None) (Request ?req) = Inr (waitForChanges 0 (StringToNumber ''0'') ?s0)"
    using step_list [of ?req "start None"]
    by (simp add: poll_fields settle_def start_def SkillShareServer_def)
  have b: "step (waitForChanges 0 (StringToNumber ''0'') ?s0) (Timer 0) = Inr ?s0"
    by (simp add: waitForChanges_def timeout_def start_def SkillShareServer_def)
  show ?thesis using a b by (simp add: waitForChanges_def start_def SkillShareServer_def)
qed

section \<open>Malformed escapes\<close>

text \<open>
  C6. A path that matches a route but whose capture is not a well-formed escape should
  be answered with a 4xx response. Here \<open>GET /talks/%\<close> arrives at a fresh server: the
  router throws \<open>URIError\<close>, and the run ends with that exception and no response.
\<close>

theorem malformed_escape_ends_process:
  "run (start None) [Request (request_of ''GET'' ''/talks/%'')] = (start None, Some URIError)"
  by code_simp

section \<open>Comments\<close>

lemma comment_object_code:
  "comment_object v =
     (\<not> (falsy v \<or> string_of (property v ''author'') = None \<or> string_of (property v ''message'') = None))"
  by (simp add: comment_object_def has_strings_code)

lemma step_POST:
  assumes "request_method req = ''POST''" "addressed talkPathAddComment req = Some t"
  shows "step s (Request req) =
           Inr (case post_comment (s\<lparr>next_id := next_id s + 1\<rparr>) t req of
                  (s1, out) \<Rightarrow> settle (next_id s) out s1)"
  using resolve_POST_at [OF assms] by (simp add: serve_def Let_def split: prod.splits)

lemma push_comment_map:
  "push_comment t v ps =
     map (\<lambda>p. if fst p = t then (fst p, (snd p)\<lparr>comments := comments (snd p) @ [v]\<rparr>) else p) ps"
  by (simp add: push_comment_def)

lemma addressed_comments_x:
  "addressed talkPathAddComment ((request_of ''POST'' ''/talks/x/comments'') \<lparr>stream := b\<rparr>) = Some ''x''"
  unfolding addressed_def request_of_def by code_simp

text \<open>
  C8. A \<open>POST\<close> on the comments of a title \<open>t\<close>, once its body has been read. When the
  body is no JSON, the response written for the request is 400 with the text
  \<open>Invalid JSON\<close>; when it is JSON but not an object with a string \<open>author\<close> and a
  string \<open>message\<close>, the response written is 404 with the text \<open>Bad comment data\<close>; when
  the body is valid and talk \<open>t\<close> is absent, it is 404 with the text
  \<open>No talk 't' found\<close>. In these three cases the state reached differs from the state
  before only in that response and in the count of requests. When the body is valid and
  the talk is there, the state reached is what \<open>updated\<close> gives on the store in which the
  parsed body is appended to the comments of every entry keyed \<open>t\<close> and no other entry
  changes, followed by the response 204 without a body for the request: the version is
  one more, the store is saved, no waiter remains, and every waiter that was pending
  and unsettled has been written the response 200 with the new tag and the new list.
\<close>

theorem comment_responses:
  assumes "request_method req = ''POST''" "addressed talkPathAddComment req = Some t"
  shows
   "(stream req = Invalid_JSON \<longrightarrow>
       step s (Request req) =
         Inr (s\<lparr>next_id := next_id s + 1,
                written := written s @
                  [(next_id s, \<lparr>wire_status = 400, wire_headers = [(''Content-Type'', ''text/plain'')],
                                 wire_body = Some (Text ''Invalid JSON'')\<rparr>)]\<rparr>)) \<and>
    (stream req = Parsed v \<and> \<not> comment_object v \<longrightarrow>
       step s (Request req) =
         Inr (s\<lparr>next_id := next_id s + 1,
                written := written s @
                  [(next_id s, \<lparr>wire_status = 404, wire_headers = [(''Content-Type'', ''text/plain'')],
                                 wire_body = Some (Text ''Bad comment data'')\<rparr>)]\<rparr>)) \<and>
    (stream req = Parsed v \<and> comment_object v \<and> t \<notin> set (map fst (talks s)) \<longrightarrow>
       step s (Request req) =
         Inr (s\<lparr>next_id := next_id s + 1,
                written := written s @
                  [(next_id s, \<lparr>wire_status = 404, wire_headers = [(''Content-Type'', ''text/plain'')],
                                 wire_body = Some (Text (''No talk '' @ [CHR 0x27] @ t @ [CHR 0x27] @ '' found''))\<rparr>)]\<rparr>)) \<and>
    (stream req = Parsed v \<and> comment_object v \<and> t \<in> set (map fst (talks s)) \<longrightarrow>
       (\<exists>u. u = updated (s\<lparr>next_id := next_id s + 1,
                            talks := map (\<lambda>p. if fst p = t
                                               then (fst p, (snd p)\<lparr>comments := comments (snd p) @ [v]\<rparr>)
                                               else p) (talks s)\<rparr>) \<and>
            step s (Request req) =
              Inr (u\<lparr>written := written u @
                     [(next_id s, \<lparr>wire_status = 204, wire_headers = [(''Content-Type'', ''text/plain'')],
                                    wire_body = None\<rparr>)]\<rparr>) \<and>
            version u = version s + 1 \<and> waiting u = [] \<and>
            talks u = map (\<lambda>p. if fst p = t
                                then (fst p, (snd p)\<lparr>comments := comments (snd p) @ [v]\<rparr>)
                                else p) (talks s) \<and>
            saved u = saved s @ [talks u] \<and>
            (\<forall>w \<in> set (waiting s).
               map_of (settled s) w = None \<longrightarrow>
               (w, \<lparr>wire_status = 200,
                    wire_headers = [(''Content-Type'', ''application/json''),
                                    (''ETag'', CHR 0x22 # decimal (version s + 1) @ [CHR 0x22])],
                    wire_body = Some (Json_talks (map snd (in_key_order (talks u))))\<rparr>)
                 \<in> set (written u))))"
proof (intro conjI impI)
  let ?s0 = "s\<lparr>next_id := next_id s + 1\<rparr>"
  note st = step_POST [OF assms, of s]
  {
    assume "stream req = Invalid_JSON"
    then show "step s (Request req) =
         Inr (s\<lparr>next_id := next_id s + 1,
                written := written s @
                  [(next_id s, \<lparr>wire_status = 400, wire_headers = [(''Content-Type'', ''text/plain'')],
                                 wire_body = Some (Text ''Invalid JSON'')\<rparr>)]\<rparr>)"
      unfolding st
      by (simp add: post_comment_def settle_def respond_def defaults_def plain_def defaultHeaders_def)
  }
  {
    assume "stream req = Parsed v \<and> \<not> comment_object v"
    then show "step s (Request req) =
         Inr (s\<lparr>next_id := next_id s + 1,
                written := written s @
                  [(next_id s, \<lparr>wire_status = 404, wire_headers = [(''Content-Type'', ''text/plain'')],
                                 wire_body = Some (Text ''Bad comment data'')\<rparr>)]\<rparr>)"
      unfolding st
      by (auto simp: post_comment_def settle_def comment_object_code respond_def defaults_def plain_def
          defaultHeaders_def)
  }
  {
    assume "stream req = Parsed v \<and> comment_object v \<and> t \<notin> set (map fst (talks s))"
    then show "step s (Request req) =
         Inr (s\<lparr>next_id := next_id s + 1,
                written := written s @
                  [(next_id s, \<lparr>wire_status = 404, wire_headers = [(''Content-Type'', ''text/plain'')],
                                 wire_body = Some (Text (''No talk '' @ [CHR 0x27] @ t @ [CHR 0x27] @ '' found''))\<rparr>)]\<rparr>)"
      unfolding st
      by (auto simp: post_comment_def settle_def comment_object_code respond_def defaults_def plain_def
          defaultHeaders_def not_found_def quote_def has_key_def)
  }
  {
    let ?f = "\<lambda>p. if fst p = t then (fst p, (snd p)\<lparr>comments := comments (snd p) @ [v]\<rparr>) else p"
    let ?u = "updated (s\<lparr>next_id := next_id s + 1, talks := map ?f (talks s)\<rparr>)"
    assume a: "stream req = Parsed v \<and> comment_object v \<and> t \<in> set (map fst (talks s))"
    then have "step s (Request req) =
              Inr (?u\<lparr>written := written ?u @
                     [(next_id s, \<lparr>wire_status = 204, wire_headers = [(''Content-Type'', ''text/plain'')],
                                    wire_body = None\<rparr>)]\<rparr>)"
      unfolding st
      by (auto simp: post_comment_def settle_def comment_object_code respond_def defaults_def
          only_status_def defaultHeaders_def has_key_def push_comment_map)
    moreover have "version ?u = version s + 1 \<and> waiting ?u = [] \<and> talks ?u = map ?f (talks s) \<and>
        saved ?u = saved s @ [talks ?u]"
      by (simp add: updated_fields)
    moreover have "\<forall>w \<in> set (waiting s).
               map_of (settled s) w = None \<longrightarrow>
               (w, \<lparr>wire_status = 200,
                    wire_headers = [(''Content-Type'', ''application/json''),
                                    (''ETag'', CHR 0x22 # decimal (version s + 1) @ [CHR 0x22])],
                    wire_body = Some (Json_talks (map snd (in_key_order (talks ?u))))\<rparr>)
                 \<in> set (written ?u)"
    proof (intro ballI impI)
      fix w assume "w \<in> set (waiting s)" "map_of (settled s) w = None"
      then have "(w, defaults (talkResponse ?u)) \<in> set (written ?u)"
        by (intro updated_writes) simp_all
      then show "(w, \<lparr>wire_status = 200,
                    wire_headers = [(''Content-Type'', ''application/json''),
                                    (''ETag'', CHR 0x22 # decimal (version s + 1) @ [CHR 0x22])],
                    wire_body = Some (Json_talks (map snd (in_key_order (talks ?u))))\<rparr>)
                 \<in> set (written ?u)"
        by (simp add: defaults_def talkResponse_def dquote_def updated_fields)
    qed
    ultimately show "\<exists>u. u = ?u \<and>
            step s (Request req) =
              Inr (u\<lparr>written := written u @
                     [(next_id s, \<lparr>wire_status = 204, wire_headers = [(''Content-Type'', ''text/plain'')],
                                    wire_body = None\<rparr>)]\<rparr>) \<and>
            version u = version s + 1 \<and> waiting u = [] \<and> talks u = map ?f (talks s) \<and>
            saved u = saved s @ [talks u] \<and>
            (\<forall>w \<in> set (waiting s).
               map_of (settled s) w = None \<longrightarrow>
               (w, \<lparr>wire_status = 200,
                    wire_headers = [(''Content-Type'', ''application/json''),
                                    (''ETag'', CHR 0x22 # decimal (version s + 1) @ [CHR 0x22])],
                    wire_body = Some (Json_talks (map snd (in_key_order (talks u))))\<rparr>)
                 \<in> set (written u))"
      by blast
  }
qed

theorem comment_responses_witness:
  "request_method ((request_of ''POST'' ''/talks/x/comments'') \<lparr>stream := Parsed remark\<rparr>) = ''POST'' \<and>
   addressed talkPathAddComment ((request_of ''POST'' ''/talks/x/comments'') \<lparr>stream := Parsed remark\<rparr>) =
     Some ''x'' \<and>
   comment_object remark \<and>
   step \<lparr>talks = [(''x'', intro), (''y'', intro\<lparr>title := ''y''\<rparr>)], version = 0, waiting = [0],
         settled = [], written = [], timers = [(0, MV 90)], saved = [], delegated = [], closed = [],
         next_id = 1\<rparr>
     (Request ((request_of ''POST'' ''/talks/x/comments'') \<lparr>stream := Parsed remark\<rparr>)) =
     Inr \<lparr>talks = [(''x'', intro\<lparr>comments := [remark]\<rparr>), (''y'', intro\<lparr>title := ''y''\<rparr>)],
          version = 1, waiting = [],
          settled = [(0, \<lparr>status = None,
                          headers = Some [(''Content-Type'', ''application/json''),
                                          (''ETag'', [CHR 0x22, CHR ''1'', CHR 0x22])],
                          body = Some (Json_talks [intro\<lparr>comments := [remark]\<rparr>, intro\<lparr>title := ''y''\<rparr>])\<rparr>)],
          written = [(0, \<lparr>wire_status = 200,
                          wire_headers = [(''Content-Type'', ''application/json''),
                                          (''ETag'', [CHR 0x22, CHR ''1'', CHR 0x22])],
                          wire_body = Some (Json_talks [intro\<lparr>comments := [remark]\<rparr>, intro\<lparr>title := ''y''\<rparr>])\<rparr>),
                     (1, \<lparr>wire_status = 204, wire_headers = [(''Content-Type'', ''text/plain'')],
                          wire_body = None\<rparr>)],
          timers = [(0, MV 90)],
          saved = [[(''x'', intro\<lparr>comments := [remark]\<rparr>), (''y'', intro\<lparr>title := ''y''\<rparr>)]],
          delegated = [], closed = [], next_id = 2\<rparr> \<and>
   step (SkillShareServer [])
     (Request ((request_of ''POST'' ''/talks/x/comments'') \<lparr>stream := Parsed remark\<rparr>)) =
     Inr \<lparr>talks = [], version = 0, waiting = [], settled = [],
          written = [(0, \<lparr>wire_status = 404, wire_headers = [(''Content-Type'', ''text/plain'')],
                          wire_body = Some (Text ''No talk 'x' found'')\<rparr>)],
          timers = [], saved = [], delegated = [], closed = [], next_id = 1\<rparr> \<and>
   \<not> comment_object (JString ''hello'') \<and>
   step (SkillShareServer [(''x'', intro)])
     (Request ((request_of ''POST'' ''/talks/x/comments'') \<lparr>stream := Parsed (JString ''hello'')\<rparr>)) =
     Inr \<lparr>talks = [(''x'', intro)], version = 0, waiting = [], settled = [],
          written = [(0, \<lparr>wire_status = 404, wire_headers = [(''Content-Type'', ''text/plain'')],
                          wire_body = Some (Text ''Bad comment data'')\<rparr>)],
          timers = [], saved = [], delegated = [], closed = [], next_id = 1\<rparr> \<and>
   step (SkillShareServer [(''x'', intro)])
     (Request ((request_of ''POST'' ''/talks/x/comments'') \<lparr>stream := Invalid_JSON\<rparr>)) =
     Inr \<lparr>talks = [(''x'', intro)], version = 0, waiting = [], settled = [],
          written = [(0, \<lparr>wire_status = 400, wire_headers = [(''Content-Type'', ''text/plain'')],
                          wire_body = Some (Text ''Invalid JSON'')\<rparr>)],
          timers = [], saved = [], delegated = [], closed = [], next_id = 1\<rparr>"
proof -
  let ?req = "\<lambda>b. (request_of ''POST'' ''/talks/x/comments'') \<lparr>stream := b\<rparr>"
  let ?s = "SkillShareServer [(''x'', intro)]"
  let ?w = "\<lparr>talks = [(''x'', intro), (''y'', intro\<lparr>title := ''y''\<rparr>)], version = 0, waiting = [0],
         settled = [], written = [], timers = [(0, MV 90)], saved = [], delegated = [], closed = [],
         next_id = 1\<rparr>"
  have m: "\<And>b. request_method (?req b) = ''POST''" by (simp add: request_of_def)
  have st: "\<And>b. stream (?req b) = b" by (simp add: request_of_def)
  have c: "comment_object remark" by (simp add: comment_object_def has_strings_def remark_def)
  have n: "\<not> comment_object (JString ''hello'')" by (simp add: comment_object_def has_strings_def)
  have d1: "decimal (Suc 0) = ''1''" by code_simp
  have x: "\<not> array_index ''x''" "\<not> array_index ''y''"
    by (simp_all add: array_index_def digits_of_def hex_value_def is_digit_def code_def)
  have o: "\<And>a b. in_key_order [(''x'', a), (''y'', b)] = [(''x'', a), (''y'', b)]"
    by (simp add: in_key_order_def x)
  note a = comment_responses [OF m addressed_comments_x, where v = remark and s = ?w]
  note b = comment_responses [OF m addressed_comments_x, where v = remark and s = "SkillShareServer []"]
  note d = comment_responses [OF m addressed_comments_x, where v = "JString ''hello''" and s = ?s]
  note e = comment_responses [OF m addressed_comments_x, where v = remark and s = ?s]
  from a c have 1: "step ?w (Request (?req (Parsed remark))) =
     Inr \<lparr>talks = [(''x'', intro\<lparr>comments := [remark]\<rparr>), (''y'', intro\<lparr>title := ''y''\<rparr>)],
          version = 1, waiting = [],
          settled = [(0, \<lparr>status = None,
                          headers = Some [(''Content-Type'', ''application/json''),
                                          (''ETag'', [CHR 0x22, CHR ''1'', CHR 0x22])],
                          body = Some (Json_talks [intro\<lparr>comments := [remark]\<rparr>, intro\<lparr>title := ''y''\<rparr>])\<rparr>)],
          written = [(0, \<lparr>wire_status = 200,
                          wire_headers = [(''Content-Type'', ''application/json''),
                                          (''ETag'', [CHR 0x22, CHR ''1'', CHR 0x22])],
                          wire_body = Some (Json_talks [intro\<lparr>comments := [remark]\<rparr>, intro\<lparr>title := ''y''\<rparr>])\<rparr>),
                     (1, \<lparr>wire_status = 204, wire_headers = [(''Content-Type'', ''text/plain'')],
                          wire_body = None\<rparr>)],
          timers = [(0, MV 90)],
          saved = [[(''x'', intro\<lparr>comments := [remark]\<rparr>), (''y'', intro\<lparr>title := ''y''\<rparr>)]],
          delegated = [], closed = [], next_id = 2\<rparr>"
    by (simp add: st updated_def Let_def resolve_waiter_def respond_def defaults_def talkResponse_def
        writeTalks_def dquote_def d1 o intro_def)
  from b c have 2: "step (SkillShareServer []) (Request (?req (Parsed remark))) =
     Inr \<lparr>talks = [], version = 0, waiting = [], settled = [],
          written = [(0, \<lparr>wire_status = 404, wire_headers = [(''Content-Type'', ''text/plain'')],
                          wire_body = Some (Text ''No talk 'x' found'')\<rparr>)],
          timers = [], saved = [], delegated = [], closed = [], next_id = 1\<rparr>"
    by (simp add: st SkillShareServer_def)
  from d n have 3: "step ?s (Request (?req (Parsed (JString ''hello'')))) =
     Inr \<lparr>talks = [(''x'', intro)], version = 0, waiting = [], settled = [],
          written = [(0, \<lparr>wire_status = 404, wire_headers = [(''Content-Type'', ''text/plain'')],
                          wire_body = Some (Text ''Bad comment data'')\<rparr>)],
          timers = [], saved = [], delegated = [], closed = [], next_id = 1\<rparr>"
    by (simp add: st SkillShareServer_def)
  from e have 4: "step ?s (Request (?req Invalid_JSON)) =
     Inr \<lparr>talks = [(''x'', intro)], version = 0, waiting = [], settled = [],
          written = [(0, \<lparr>wire_status = 400, wire_headers = [(''Content-Type'', ''text/plain'')],
                          wire_body = Some (Text ''Invalid JSON'')\<rparr>)],
          timers = [], saved = [], delegated = [], closed = [], next_id = 1\<rparr>"
    by (simp add: st SkillShareServer_def)
  show ?thesis using m addressed_comments_x c n 1 2 3 4 by simp
qed

section \<open>Errors of a handler\<close>

lemma resolve_aborted:
  "resolve routes ((start None) \<lparr>next_id := next_id (start None) + 1\<rparr>) (next_id (start None))
     ((request_of ''PUT'' ''/talks/x'') \<lparr>stream := Stream_error e\<rparr>) =
   Inr (Some ((start None) \<lparr>next_id := 1\<rparr>, Rejected e))"
proof -
  have "addressed talkPath ((request_of ''PUT'' ''/talks/x'') \<lparr>stream := Stream_error e\<rparr>) = Some ''x''"
    unfolding addressed_def request_of_def by code_simp
  then show ?thesis
    using resolve_PUT_at [of "(request_of ''PUT'' ''/talks/x'') \<lparr>stream := Stream_error e\<rparr>" "''x''"]
    by (simp add: request_of_def put_talk_def start_def SkillShareServer_def)
qed

text \<open>
  C9. When the promise of the handler that the router chose is rejected with an error,
  the response written is status 500 with the default headers and the error as text,
  unless the error has a \<open>status\<close>: then the error's own status, headers and body are
  the response.
\<close>

theorem errors_become_responses:
  "resolve routes (s\<lparr>next_id := next_id s + 1\<rparr>) (next_id s) req = Inr (Some (s1, Rejected e)) \<longrightarrow>
     step s (Request req) =
       Inr (s1\<lparr>written := written s1 @
         [(next_id s,
           if status (properties e) = None
           then \<lparr>wire_status = 500, wire_headers = defaultHeaders, wire_body = Some (Text (as_string e))\<rparr>
           else \<lparr>wire_status = the (status (properties e)),
                 wire_headers = (case headers (properties e) of None \<Rightarrow> defaultHeaders | Some h \<Rightarrow> h),
                 wire_body = body (properties e)\<rparr>)]\<rparr>)"
  by (auto simp: serve_def Let_def settle_def respond_def recover_def defaults_def)

theorem errors_become_responses_witness:
  "resolve routes ((start None) \<lparr>next_id := next_id (start None) + 1\<rparr>) (next_id (start None))
     ((request_of ''PUT'' ''/talks/x'') \<lparr>stream := Stream_error aborted\<rparr>) =
     Inr (Some ((start None) \<lparr>next_id := 1\<rparr>, Rejected aborted)) \<and>
   step (start None) (Request ((request_of ''PUT'' ''/talks/x'') \<lparr>stream := Stream_error aborted\<rparr>)) =
     Inr ((start None) \<lparr>next_id := 1,
        written := [(0, \<lparr>wire_status = 500, wire_headers = defaultHeaders,
                          wire_body = Some (Text ''Error: aborted'')\<rparr>)]\<rparr>) \<and>
   resolve routes ((start None) \<lparr>next_id := next_id (start None) + 1\<rparr>) (next_id (start None))
     ((request_of ''PUT'' ''/talks/x'') \<lparr>stream := Stream_error too_large\<rparr>) =
     Inr (Some ((start None) \<lparr>next_id := 1\<rparr>, Rejected too_large)) \<and>
   step (start None) (Request ((request_of ''PUT'' ''/talks/x'') \<lparr>stream := Stream_error too_large\<rparr>)) =
     Inr ((start None) \<lparr>next_id := 1,
        written := [(0, \<lparr>wire_status = 413, wire_headers = defaultHeaders,
                          wire_body = Some (Text ''too large'')\<rparr>)]\<rparr>)"
proof -
  note a = errors_become_responses [of "start None"
      "(request_of ''PUT'' ''/talks/x'') \<lparr>stream := Stream_error aborted\<rparr>"
      "(start None) \<lparr>next_id := 1\<rparr>" aborted]
  note b = errors_become_responses [of "start None"
      "(request_of ''PUT'' ''/talks/x'') \<lparr>stream := Stream_error too_large\<rparr>"
      "(start None) \<lparr>next_id := 1\<rparr>" too_large]
  from a resolve_aborted [of aborted]
  have 1: "step (start None) (Request ((request_of ''PUT'' ''/talks/x'') \<lparr>stream := Stream_error aborted\<rparr>)) =
     Inr ((start None) \<lparr>next_id := 1,
        written := [(0, \<lparr>wire_status = 500, wire_headers = defaultHeaders,
                          wire_body = Some (Text ''Error: aborted'')\<rparr>)]\<rparr>)"
    by (simp add: aborted_def start_def SkillShareServer_def)
  from b resolve_aborted [of too_large]
  have 2: "step (start None) (Request ((request_of ''PUT'' ''/talks/x'') \<lparr>stream := Stream_error too_large\<rparr>)) =
     Inr ((start None) \<lparr>next_id := 1,
        written := [(0, \<lparr>wire_status = 413, wire_headers = defaultHeaders,
                          wire_body = Some (Text ''too large'')\<rparr>)]\<rparr>)"
    by (simp add: too_large_def start_def SkillShareServer_def)
  show ?thesis using 1 2 resolve_aborted [of aborted] resolve_aborted [of too_large] by simp
qed

section \<open>The tag and the wait preference\<close>

lemma star_calls:
  "star c K b r os cs = Some m \<Longrightarrow> \<exists>pre r'. r = pre @ r' \<and> K (rev pre @ b) r' os cs = Some m"
proof (induction r arbitrary: b)
  case Nil
  then show ?case by simp
next
  case (Cons x xs)
  show ?case
  proof (cases "accepts c (x # xs) \<and> star c K (x # b) xs os cs \<noteq> None")
    case True
    then have "star c K (x # b) xs os cs = Some m" using Cons.prems by auto
    then obtain pre r' where "xs = pre @ r'" "K (rev pre @ x # b) r' os cs = Some m"
      using Cons.IH by blast
    then have "x # xs = (x # pre) @ r' \<and> K (rev (x # pre) @ b) r' os cs = Some m" by simp
    then show ?thesis by blast
  next
    case False
    then have "K b (x # xs) os cs = Some m" using Cons.prems by (auto split: if_splits)
    then have "x # xs = [] @ (x # xs) \<and> K (rev [] @ b) (x # xs) os cs = Some m" by simp
    then show ?thesis by blast
  qed
qed

lemma tag_match:
  assumes "nodes_match tagPattern (accept i) bef rst [] [] = Some m"
  shows "\<exists>pre r. rst = dquote # pre @ dquote # r \<and> groups m = [pre]"
proof -
  let ?K = "node_match Close (node_match (Lit dquote) (accept i))"
  from assms obtain r0 where r0: "rst = dquote # r0"
    and s: "star Dot ?K (dquote # bef) r0 [Suc (length bef)] [] = Some m"
    by (cases rst) (auto simp: tagPattern_def split: if_splits)
  from star_calls [OF s] obtain pre r' where p: "r0 = pre @ r'"
    and k: "?K (rev pre @ dquote # bef) r' [Suc (length bef)] [] = Some m"
    by blast
  from k obtain r where "r' = dquote # r" "groups m = [pre]"
    by (cases r') (auto simp: accept_def split: if_splits)
  with r0 p show ?thesis by simp
qed

lemma exec_from_tag:
  "exec_from tagPattern bef rst = Some m \<Longrightarrow>
     (\<exists>g. groups m = [g]) \<and> 2 \<le> length (filter (\<lambda>c. c = dquote) rst)"
proof (induction rst arbitrary: bef)
  case Nil
  then show ?case using tag_match [of "length bef" bef "[]" m] by simp
next
  case (Cons x xs)
  show ?case
  proof (cases "nodes_match tagPattern (accept (length bef)) bef (x # xs) [] []")
    case None
    then have "exec_from tagPattern (x # bef) xs = Some m" using Cons.prems by simp
    then show ?thesis using Cons.IH by fastforce
  next
    case (Some m')
    then have "m' = m" using Cons.prems by simp
    with Some obtain pre r where "x # xs = dquote # pre @ dquote # r" "groups m = [pre]"
      using tag_match by blast
    then show ?thesis by auto
  qed
qed

lemma tag_groups: "exec tagPattern h = Some m \<Longrightarrow> \<exists>g. groups m = [g]"
  using exec_from_tag [of "[]" h m] by (simp add: exec_def)

lemma tag_needs_quotes: "length (filter (\<lambda>c. c = dquote) h) < 2 \<Longrightarrow> exec tagPattern h = None"
  using exec_from_tag [of "[]" h] by (cases "exec tagPattern h") (auto simp: exec_def)

lemma lits_calls:
  "nodes_match (lits l) K b r os cs = Some m \<Longrightarrow> \<exists>b' r'. K b' r' os cs = Some m"
  unfolding lits_match by (metis option.distinct(1))

lemma wait_match:
  assumes "nodes_match waitPattern (accept i) bef rst [] [] = Some m"
  shows "\<exists>n. groups m = [n]"
proof -
  let ?K = "node_match Close (accept i)"
  have "nodes_match waitPattern (accept i) bef rst [] [] =
          node_match WordB (nodes_match (lits ''wait='')
            (node_match Open (node_match (Plus Digit) ?K))) bef rst [] []"
    by (simp add: waitPattern_def nodes_match_append)
  with assms have "nodes_match (lits ''wait='') (node_match Open (node_match (Plus Digit) ?K)) bef rst [] [] = Some m"
    by (simp split: if_splits)
  then have "\<exists>b1 r1. node_match Open (node_match (Plus Digit) ?K) b1 r1 [] [] = Some m"
    by (rule lits_calls)
  then obtain b1 r1 where "node_match Open (node_match (Plus Digit) ?K) b1 r1 [] [] = Some m"
    by auto
  then have "node_match (Plus Digit) ?K b1 r1 [length b1] [] = Some m" by simp
  then obtain x xs where "star Digit ?K (x # b1) xs [length b1] [] = Some m"
    by (cases r1) (auto split: if_splits)
  from star_calls [OF this] obtain b' r' where "?K b' r' [length b1] [] = Some m"
    by blast
  then show ?thesis by (auto simp: accept_def)
qed

lemma exec_from_wait: "exec_from waitPattern bef rst = Some m \<Longrightarrow> \<exists>n. groups m = [n]"
proof (induction rst arbitrary: bef)
  case Nil
  then show ?case using wait_match [of "length bef" bef "[]" m] by simp
next
  case (Cons x xs)
  then show ?case
    using wait_match [of "length bef" bef "x # xs" m]
    by (cases "nodes_match waitPattern (accept (length bef)) bef (x # xs) [] []") auto
qed

lemma wait_groups: "exec waitPattern h = Some m \<Longrightarrow> \<exists>n. groups m = [n]"
  using exec_from_wait [of "[]" h m] by (simp add: exec_def)

lemma tag_absent: "exec tagPattern (header_text None) = None"
  by code_simp

section \<open>The printed version compares equal to the version\<close>

lemma decimal_digit:
  assumes "d < 10"
  shows "is_digit (char_of (48 + d))" "hex_value (char_of (48 + d)) = Some d"
proof -
  have "code (char_of (48 + d)) = 48 + d" using assms by (simp add: code_def)
  then show "is_digit (char_of (48 + d))" "hex_value (char_of (48 + d)) = Some d"
    using assms by (simp_all add: is_digit_def hex_value_def)
qed

lemma decimal_shape: "decimal n \<noteq> [] \<and> list_all is_digit (decimal n)"
proof (induction n rule: decimal.induct)
  case (1 n)
  show ?case
  proof (cases "n < 10")
    case True
    then show ?thesis by (simp add: decimal.simps [of n] decimal_digit)
  next
    case False
    then show ?thesis using 1 by (simp add: decimal.simps [of n] decimal_digit)
  qed
qed

lemma digits_value_snoc:
  "digits_value b (ds @ [c]) = digits_value b ds * b + the (hex_value c)"
  by (simp add: digits_value_def)

lemma decimal_value: "digits_value 10 (decimal n) = n"
proof (induction n rule: decimal.induct)
  case (1 n)
  show ?case
  proof (cases "n < 10")
    case True
    then show ?thesis by (simp add: decimal.simps [of n] digits_value_def decimal_digit)
  next
    case False
    then show ?thesis
      using 1 by (simp add: decimal.simps [of n] digits_value_snoc decimal_digit)
  qed
qed

lemma digit_not_space:
  assumes "is_digit a"
  shows "\<not> ws1 a" "\<not> ws2 a b" "\<not> ws2 b a" "\<not> ws3 a b c" "\<not> ws3 b c a"
  using assms by (auto simp: is_digit_def ws1_def ws2_def ws3_def between_def)

lemma trim_start_digit: "is_digit a \<Longrightarrow> trim_start (a # r) = a # r"
  by (cases r rule: trim_start.cases) (simp_all add: digit_not_space)

lemma trim_end_rev_digit: "is_digit c \<Longrightarrow> trim_end_rev (c # r) = c # r"
  by (cases r rule: trim_end_rev.cases) (simp_all add: digit_not_space)

lemma trim_digits:
  assumes "ds \<noteq> []" "list_all is_digit ds"
  shows "trim ds = ds"
proof -
  from assms obtain a r where ds: "ds = a # r" "is_digit a" by (cases ds) auto
  from assms obtain c q where rv: "rev ds = c # q" "is_digit c"
    by (cases "rev ds") (auto simp: list_all_iff)
  have "trim ds = rev (trim_end_rev (rev ds))"
    unfolding trim_def using ds trim_start_digit by simp
  also have "\<dots> = rev (rev ds)" using rv trim_end_rev_digit by simp
  finally show ?thesis by simp
qed

lemma letter_not_digit:
  "\<not> is_digit (CHR ''x'')" "\<not> is_digit (CHR ''X'')" "\<not> is_digit (CHR ''o'')" "\<not> is_digit (CHR ''O'')"
  "\<not> is_digit (CHR ''b'')" "\<not> is_digit (CHR ''B'')" "\<not> is_digit (CHR ''+'')" "\<not> is_digit (CHR ''-'')"
  "\<not> is_digit (CHR ''I'')"
  by (simp_all add: is_digit_def code_def)

lemma digits_not_prefixed:
  assumes "list_all is_digit ds" "\<not> is_digit l" "\<not> is_digit u"
  shows "\<not> prefixed l u ds"
  using assms by (auto simp: prefixed_def split: list.splits)

lemma unsigned_decimal_digits:
  assumes "ds \<noteq> []" "list_all is_digit ds"
  shows "unsigned_decimal ds = Some (of_nat (digits_value 10 ds))"
proof -
  have tw: "takeWhile is_digit ds = ds" and dw: "dropWhile is_digit ds = []"
    using assms(2) by (simp_all add: list_all_iff)
  show ?thesis
    unfolding unsigned_decimal_def tw dw Let_def
    using assms(1) by (simp add: exponent_def scale_def)
qed

lemma StringToNumber_digits:
  assumes "ds \<noteq> []" "list_all is_digit ds"
  shows "StringToNumber ds = MV (of_nat (digits_value 10 ds))"
proof -
  from assms obtain a r where ds: "ds = a # r" "is_digit a" by (cases ds) auto
  then have h: "hd ds \<noteq> CHR ''+''" "hd ds \<noteq> CHR ''-''" "ds \<noteq> ''Infinity''"
    using letter_not_digit by auto
  have p: "\<not> prefixed (CHR ''x'') (CHR ''X'') ds" "\<not> prefixed (CHR ''o'') (CHR ''O'') ds"
    "\<not> prefixed (CHR ''b'') (CHR ''B'') ds"
    using digits_not_prefixed [OF assms(2)] letter_not_digit by simp_all
  show ?thesis
    unfolding StringToNumber_def trim_digits [OF assms] Let_def
    using assms(1) h p by (simp add: signed_literal_def unsigned_decimal_digits [OF assms])
qed

lemma rounds_to_self: "rounds_to (of_nat n) n"
proof (cases "n = 0")
  case True
  then show ?thesis by (simp add: rounds_to_def)
next
  case False
  have "(0::rat) < 2 ^ log2 n / 2 ^ 53" by simp
  then show ?thesis using False by (simp add: rounds_to_def Let_def)
qed

lemma decimal_current: "loosely_equal (decimal n) n"
  using decimal_shape [of n]
  by (simp add: loosely_equal_def StringToNumber_digits decimal_value rounds_to_self)

section \<open>The negotiation of the list\<close>

lemma talkResponse_next: "talkResponse (s\<lparr>next_id := k\<rparr>) = talkResponse s"
  by (simp add: talkResponse_def)

lemma resolve_waiter_writes:
  "map_of (settled s) w = None \<Longrightarrow>
     written (resolve_waiter w r s) = written s @ [(w, defaults r)]"
  unfolding resolve_waiter_def settled_key by (simp add: respond_def)

lemma start_fields:
  "version (start None) = 0" "next_id (start None) = 0" "waiting (start None) = []"
  "timers (start None) = []" "talks (start None) = []" "written (start None) = []"
  "settled (start None) = []"
  by (simp_all add: start_def SkillShareServer_def)

text \<open>
  C3, as the claim states it, fails: it takes the quoted text of \<open>If-None-Match\<close> to be
  current only when it is the version. A fresh server (version 0) that gets the header
  \<open>""\<close>, whose quoted text is empty and so is not the printed version \<open>0\<close>, answers 304
  and not 200: the empty string, converted to a number, is 0.
\<close>

theorem list_negotiation_counterexample:
  "exec tagPattern (header_text (if_none_match (poll (Some (quoted [])) None))) =
     Some \<lparr>index = 0, matched = quoted [], groups = [[]]\<rparr> \<and>
   [] \<noteq> decimal (version (start None)) \<and>
   step (start None) (Request (poll (Some (quoted [])) None)) =
     Inr (respond 0 (only_status 304) ((start None) \<lparr>next_id := 1\<rparr>)) \<and>
   defaults (only_status 304) =
     \<lparr>wire_status = 304, wire_headers = defaultHeaders, wire_body = None\<rparr>"
proof -
  let ?req = "poll (Some (quoted [])) None"
  let ?s0 = "(start None) \<lparr>next_id := 1\<rparr>"
  have t: "exec tagPattern (header_text (if_none_match ?req)) =
     Some \<lparr>index = 0, matched = quoted [], groups = [[]]\<rparr>"
    by (simp add: poll_fields tag_empty)
  have w: "exec waitPattern (header_text (prefer_header ?req)) = None"
    by (simp add: poll_fields wait_absent)
  have "get_talks ?s0 0 ?req = (?s0, Fulfilled (only_status 304))"
    using get_talks_current [OF t _ _ w, of "[]" ?s0 0] by (simp add: start_fields empty_current)
  then have "step (start None) (Request ?req) = Inr (respond 0 (only_status 304) ?s0)"
    unfolding step_list [OF poll_fields(1,2)] by (simp add: settle_def start_fields)
  moreover have "[] \<noteq> decimal (version (start None))"
    using decimal_shape [of "version (start None)"] by fastforce
  ultimately show ?thesis using t by (simp add: defaults_def only_status_def)
qed

text \<open>
  C3, amended. For a \<open>GET\<close> on \<open>/talks\<close>: when the tag pattern finds no quoted text in
  the header (an absent header among these), or the quoted text does not compare equal
  to the version as the language compares a string with a number, the response is
  written at once, with status 200, the version as quoted ETag and the serialised
  collection; when it compares equal and the wait pattern finds nothing in \<open>Prefer\<close>, the
  response is 304 at once; when it compares equal and the wait pattern finds \<open>wait=n\<close>,
  nothing is written, the waiter is registered with a timeout of \<open>n\<close> seconds, and
  whatever its promise is resolved with later is written as the response. The cases are
  exhaustive (a match of either pattern has one capture), and the printed version
  always compares equal to the version.
\<close>

theorem list_negotiation:
  assumes "request_method req = ''GET''" "pathname req = ''/talks''"
  shows
   "(exec tagPattern (header_text (if_none_match req)) = None \<or>
       (exec tagPattern (header_text (if_none_match req)) = Some m \<and> groups m = [g] \<and>
        \<not> loosely_equal g (version s)) \<longrightarrow>
      step s (Request req) =
        Inr (respond (next_id s) (talkResponse s) (s\<lparr>next_id := next_id s + 1\<rparr>)) \<and>
      defaults (talkResponse s) =
        \<lparr>wire_status = 200,
         wire_headers = [(''Content-Type'', ''application/json''), (''ETag'', quoted (decimal (version s)))],
         wire_body = Some (Json_talks (map snd (in_key_order (talks s))))\<rparr>) \<and>
    (exec tagPattern (header_text (if_none_match req)) = Some m \<and> groups m = [g] \<and>
     loosely_equal g (version s) \<and> exec waitPattern (header_text (prefer_header req)) = None \<longrightarrow>
      step s (Request req) =
        Inr (respond (next_id s) (only_status 304) (s\<lparr>next_id := next_id s + 1\<rparr>))) \<and>
    (exec tagPattern (header_text (if_none_match req)) = Some m \<and> groups m = [g] \<and>
     loosely_equal g (version s) \<and> exec waitPattern (header_text (prefer_header req)) = Some w \<and>
     groups w = [n] \<longrightarrow>
      step s (Request req) =
        Inr (waitForChanges (next_id s) (StringToNumber n) (s\<lparr>next_id := next_id s + 1\<rparr>)) \<and>
      (\<forall>r (s' :: state). map_of (settled s') (next_id s) = None \<longrightarrow>
         written (resolve_waiter (next_id s) r s') = written s' @ [(next_id s, defaults r)])) \<and>
    (if_none_match req = None \<longrightarrow> exec tagPattern (header_text (if_none_match req)) = None) \<and>
    (exec tagPattern (header_text (if_none_match req)) = Some m \<longrightarrow> (\<exists>g. groups m = [g])) \<and>
    (exec waitPattern (header_text (prefer_header req)) = Some w \<longrightarrow> (\<exists>n. groups w = [n])) \<and>
    loosely_equal (decimal (version s)) (version s)"
proof (intro conjI impI allI)
  let ?s0 = "s\<lparr>next_id := next_id s + 1\<rparr>"
  let ?c = "next_id s"
  note st = step_list [OF assms, of s]
  {
    assume a: "exec tagPattern (header_text (if_none_match req)) = None \<or>
       (exec tagPattern (header_text (if_none_match req)) = Some m \<and> groups m = [g] \<and>
        \<not> loosely_equal g (version s))"
    then have "get_talks ?s0 ?c req = (?s0, Fulfilled (talkResponse ?s0))"
      by (intro get_talks_stale [where m = m and g = g]) simp
    then show "step s (Request req) = Inr (respond ?c (talkResponse s) ?s0)"
      unfolding st by (simp add: settle_def talkResponse_next)
    show "defaults (talkResponse s) =
        \<lparr>wire_status = 200,
         wire_headers = [(''Content-Type'', ''application/json''), (''ETag'', quoted (decimal (version s)))],
         wire_body = Some (Json_talks (map snd (in_key_order (talks s))))\<rparr>"
      by (simp add: defaults_def talkResponse_def quoted_def)
  }
  {
    assume a: "exec tagPattern (header_text (if_none_match req)) = Some m \<and> groups m = [g] \<and>
     loosely_equal g (version s) \<and> exec waitPattern (header_text (prefer_header req)) = None"
    then have "get_talks ?s0 ?c req = (?s0, Fulfilled (only_status 304))"
      by (intro get_talks_current [where m = m and g = g]) simp_all
    then show "step s (Request req) = Inr (respond ?c (only_status 304) ?s0)"
      unfolding st by (simp add: settle_def)
  }
  {
    assume a: "exec tagPattern (header_text (if_none_match req)) = Some m \<and> groups m = [g] \<and>
     loosely_equal g (version s) \<and> exec waitPattern (header_text (prefer_header req)) = Some w \<and>
     groups w = [n]"
    then have "get_talks ?s0 ?c req = (waitForChanges ?c (StringToNumber n) ?s0, Pending ?c)"
      by (intro get_talks_wait [where m = m and g = g and w = w]) simp_all
    then show "step s (Request req) = Inr (waitForChanges ?c (StringToNumber n) ?s0)"
      unfolding st by (simp add: settle_def)
  }
  {
    fix r and s' :: state
    assume "map_of (settled s') (next_id s) = None"
    then show "written (resolve_waiter (next_id s) r s') = written s' @ [(next_id s, defaults r)]"
      by (rule resolve_waiter_writes)
  }
  {
    assume "if_none_match req = None"
    then show "exec tagPattern (header_text (if_none_match req)) = None"
      by (simp add: tag_absent)
  }
  {
    assume "exec tagPattern (header_text (if_none_match req)) = Some m"
    then show "\<exists>g. groups m = [g]" by (rule tag_groups)
  }
  {
    assume "exec waitPattern (header_text (prefer_header req)) = Some w"
    then show "\<exists>n. groups w = [n]" by (rule wait_groups)
  }
  show "loosely_equal (decimal (version s)) (version s)" by (rule decimal_current)
qed

theorem list_negotiation_witness:
  "request_method (poll None None) = ''GET'' \<and> pathname (poll None None) = ''/talks'' \<and>
   exec tagPattern (header_text (if_none_match (poll None None))) = None \<and>
   step (start None) (Request (poll None None)) =
     Inr (respond 0 (talkResponse (start None)) ((start None) \<lparr>next_id := 1\<rparr>)) \<and>
   exec tagPattern (header_text (if_none_match (poll (Some (quoted ''0'')) None))) =
     Some \<lparr>index = 0, matched = quoted ''0'', groups = [''0'']\<rparr> \<and>
   loosely_equal ''0'' (version (start None)) \<and>
   exec waitPattern (header_text (prefer_header (poll (Some (quoted ''0'')) None))) = None \<and>
   step (start None) (Request (poll (Some (quoted ''0'')) None)) =
     Inr (respond 0 (only_status 304) ((start None) \<lparr>next_id := 1\<rparr>)) \<and>
   exec waitPattern (header_text (prefer_header (poll (Some (quoted ''0'')) (Some ''wait=0'')))) =
     Some \<lparr>index = 0, matched = ''wait=0'', groups = [''0'']\<rparr> \<and>
   step (start None) (Request (poll (Some (quoted ''0'')) (Some ''wait=0''))) =
     Inr (waitForChanges 0 (StringToNumber ''0'') ((start None) \<lparr>next_id := 1\<rparr>))"
proof -
  let ?m = "\<lparr>index = 0, matched = quoted ''0'', groups = [''0'']\<rparr>"
  let ?w = "\<lparr>index = 0, matched = ''wait=0'', groups = [''0'']\<rparr>"
  have z: "loosely_equal ''0'' (version (start None))" by (simp add: start_fields zero_current)
  have t0: "exec tagPattern (header_text (if_none_match (poll None None))) = None"
    by (simp add: poll_fields tag_absent)
  have t1: "\<And>w. exec tagPattern (header_text (if_none_match (poll (Some (quoted ''0'')) w))) = Some ?m"
    by (simp add: poll_fields tag_zero)
  have w0: "\<And>t. exec waitPattern (header_text (prefer_header (poll t None))) = None"
    by (simp add: poll_fields wait_absent)
  have w1: "\<And>t. exec waitPattern (header_text (prefer_header (poll t (Some ''wait=0'')))) = Some ?w"
    by (simp add: poll_fields wait_zero)
  note a = list_negotiation [OF poll_fields(1,2), where t1 = None and w1 = None and s = "start None"]
  note b = list_negotiation [OF poll_fields(1,2), where t1 = "Some (quoted ''0'')" and w1 = None
      and s = "start None" and m = ?m and g = "''0''"]
  note c = list_negotiation [OF poll_fields(1,2), where t1 = "Some (quoted ''0'')"
      and w1 = "Some ''wait=0''" and s = "start None" and m = ?m and g = "''0''" and w = ?w and n = "''0''"]
  from a t0 have 1: "step (start None) (Request (poll None None)) =
     Inr (respond 0 (talkResponse (start None)) ((start None) \<lparr>next_id := 1\<rparr>))"
    by (simp add: start_fields)
  from b t1 z w0 have 2: "step (start None) (Request (poll (Some (quoted ''0'')) None)) =
     Inr (respond 0 (only_status 304) ((start None) \<lparr>next_id := 1\<rparr>))"
    by (simp add: start_fields)
  from c t1 z w1 have 3: "step (start None) (Request (poll (Some (quoted ''0'')) (Some ''wait=0''))) =
     Inr (waitForChanges 0 (StringToNumber ''0'') ((start None) \<lparr>next_id := 1\<rparr>))"
    by (simp add: start_fields)
  show ?thesis using 1 2 3 z t0 t1 w0 w1 by (simp add: poll_fields)
qed

text \<open>
  C10. A \<open>GET\<close> on \<open>/talks\<close> whose \<open>If-None-Match\<close> is present but holds fewer than two
  double quotes, so no quoted text, whatever \<open>Prefer\<close> says: the state reached differs
  from the state before only in the count of requests and in one more written
  response, for this request, with status 200, the tag of the current version and the
  current list as its body. It is the state the same request without \<open>If-None-Match\<close>
  reaches; no waiter and no timeout is added.
\<close>

theorem unquoted_tag_gets_snapshot:
  assumes "request_method req = ''GET''" "pathname req = ''/talks''"
    "if_none_match req = Some h" "length (filter (\<lambda>c. c = CHR 0x22) h) < 2"
  shows "step s (Request req) =
           Inr (s\<lparr>next_id := next_id s + 1,
                  written := written s @
                    [(next_id s,
                      \<lparr>wire_status = 200,
                       wire_headers = [(''Content-Type'', ''application/json''),
                                       (''ETag'', CHR 0x22 # decimal (version s) @ [CHR 0x22])],
                       wire_body = Some (Json_talks (map snd (in_key_order (talks s))))\<rparr>)]\<rparr>) \<and>
         step s (Request req) = step s (Request (req\<lparr>if_none_match := None\<rparr>)) \<and>
         (\<exists>s'. step s (Request req) = Inr s' \<and> waiting s' = waiting s \<and> timers s' = timers s \<and>
            settled s' = settled s \<and> version s' = version s \<and> talks s' = talks s)"
proof -
  let ?s0 = "s\<lparr>next_id := next_id s + 1\<rparr>"
  let ?r = "Inr (s\<lparr>next_id := next_id s + 1,
                  written := written s @
                    [(next_id s,
                      \<lparr>wire_status = 200,
                       wire_headers = [(''Content-Type'', ''application/json''),
                                       (''ETag'', CHR 0x22 # decimal (version s) @ [CHR 0x22])],
                       wire_body = Some (Json_talks (map snd (in_key_order (talks s))))\<rparr>)]\<rparr>)"
  have w: "settle (next_id s) (Fulfilled (talkResponse ?s0)) ?s0 =
      s\<lparr>next_id := next_id s + 1,
                  written := written s @
                    [(next_id s,
                      \<lparr>wire_status = 200,
                       wire_headers = [(''Content-Type'', ''application/json''),
                                       (''ETag'', CHR 0x22 # decimal (version s) @ [CHR 0x22])],
                       wire_body = Some (Json_talks (map snd (in_key_order (talks s))))\<rparr>)]\<rparr>"
    by (simp add: settle_def respond_def defaults_def talkResponse_def dquote_def)
  have "length (filter (\<lambda>c. c = dquote) h) < 2" using assms(4) by (simp add: dquote_def)
  then have "exec tagPattern (header_text (if_none_match req)) = None"
    using tag_needs_quotes assms(3) by (simp add: header_text_def)
  then have "get_talks ?s0 (next_id s) req = (?s0, Fulfilled (talkResponse ?s0))"
    by (intro get_talks_stale) simp
  then have 1: "step s (Request req) = ?r"
    unfolding step_list [OF assms(1,2), of s] using w by simp
  let ?q = "req\<lparr>if_none_match := None\<rparr>"
  have "get_talks ?s0 (next_id s) ?q = (?s0, Fulfilled (talkResponse ?s0))"
    by (intro get_talks_stale) (simp add: tag_absent)
  moreover have g: "request_method ?q = ''GET''" "pathname ?q = ''/talks''" using assms by simp_all
  ultimately have 2: "step s (Request ?q) = ?r"
    unfolding step_list [OF g, of s] using w by simp
  show ?thesis using 1 2 by simp
qed

theorem unquoted_tag_gets_snapshot_witness:
  "request_method (poll (Some ''0'') (Some ''wait=5'')) = ''GET'' \<and>
   pathname (poll (Some ''0'') (Some ''wait=5'')) = ''/talks'' \<and>
   if_none_match (poll (Some ''0'') (Some ''wait=5'')) = Some ''0'' \<and>
   length (filter (\<lambda>c. c = CHR 0x22) ''0'') < 2 \<and>
   step (start None) (Request (poll (Some ''0'') (Some ''wait=5''))) =
     Inr \<lparr>talks = [], version = 0, waiting = [], settled = [],
          written = [(0, \<lparr>wire_status = 200,
                          wire_headers = [(''Content-Type'', ''application/json''),
                                          (''ETag'', [CHR 0x22, CHR ''0'', CHR 0x22])],
                          wire_body = Some (Json_talks [])\<rparr>)],
          timers = [], saved = [], delegated = [], closed = [], next_id = 1\<rparr> \<and>
   step (start None) (Request (poll (Some ''0'') (Some ''wait=5''))) =
     step (start None) (Request (poll None (Some ''wait=5'')))"
proof -
  have q: "length (filter (\<lambda>c. c = CHR 0x22) ''0'') < 2" by simp
  have d0: "decimal 0 = ''0''" by code_simp
  have o: "in_key_order ([] :: (string \<times> talk) list) = []" by (simp add: in_key_order_def)
  have p: "(poll (Some ''0'') (Some ''wait=5'')) \<lparr>if_none_match := None\<rparr> = poll None (Some ''wait=5'')"
    by (simp add: poll_def)
  note a = unquoted_tag_gets_snapshot [OF poll_fields(1) [of "Some ''0''" "Some ''wait=5''"]
      poll_fields(2) poll_fields(3) q, where s = "start None"]
  have e: "(start None)
      \<lparr>next_id := 1,
       written := [(0, \<lparr>wire_status = 200,
                          wire_headers = [(''Content-Type'', ''application/json''),
                                          (''ETag'', [CHR 0x22, CHR ''0'', CHR 0x22])],
                          wire_body = Some (Json_talks [])\<rparr>)]\<rparr> =
     \<lparr>talks = [], version = 0, waiting = [], settled = [],
          written = [(0, \<lparr>wire_status = 200,
                          wire_headers = [(''Content-Type'', ''application/json''),
                                          (''ETag'', [CHR 0x22, CHR ''0'', CHR 0x22])],
                          wire_body = Some (Json_talks [])\<rparr>)],
          timers = [], saved = [], delegated = [], closed = [], next_id = 1\<rparr>"
    by (simp add: start_def SkillShareServer_def)
  note 1 = a [THEN conjunct1, unfolded start_fields d0 o]
  note 2 = a [THEN conjunct2, THEN conjunct1, unfolded p]
  show ?thesis
    using q 1 2 e by (simp add: poll_fields del: step.simps)
qed

section \<open>Connections that close\<close>

lemma call_keeps_timers:
  assumes "call h s c ps req = (s1, out)" "set (waiting s) \<subseteq> set (map fst (timers s))"
  shows "set (waiting s1) \<subseteq> set (map fst (timers s1))"
proof (cases "(h, s, c, ps, req)" rule: call.cases)
  case (1 s' c' t req')
  then show ?thesis using assms by (auto simp: get_talk_def split: option.splits)
next
  case (2 s' c' t req')
  then show ?thesis using assms by (auto simp: delete_talk_def updated_fields split: if_splits)
next
  case (3 s' c' t req')
  then show ?thesis
    using assms
    by (auto simp: put_talk_def updated_fields split: content.splits bool.splits option.splits)
next
  case (4 s' c' t req')
  then show ?thesis
    using assms by (auto simp: post_comment_def updated_fields split: content.splits if_splits)
next
  case (5 s' c' req')
  then show ?thesis
    using assms
    by (auto simp: get_talks_def Let_def waitForChanges_def split: option.splits if_splits)
qed (use assms in auto)

lemma resolve_calls:
  "resolve rs s c req = Inr (Some (s1, out)) \<Longrightarrow> \<exists>h ps. call h s c ps req = (s1, out)"
  by (induction rs) (auto split: option.splits if_splits sum.splits)

lemma step_keeps_timers:
  assumes "step s e = Inr s'" "set (waiting s) \<subseteq> set (map fst (timers s))"
  shows "set (waiting s') \<subseteq> set (map fst (timers s'))"
proof (cases e)
  case (Request req)
  let ?s0 = "s\<lparr>next_id := next_id s + 1\<rparr>"
  from assms(1) Request obtain x where x: "resolve routes ?s0 (next_id s) req = Inr x"
    and s': "s' = (case x of
                   None \<Rightarrow> s\<lparr>next_id := next_id s + 1, delegated := delegated s @ [next_id s]\<rparr>
                 | Some (s1, out) \<Rightarrow> settle (next_id s) out s1)"
    using serve_Inr [of routes s req s'] by auto
  show ?thesis
  proof (cases x)
    case None
    with s' assms(2) show ?thesis by simp
  next
    case (Some p)
    obtain s1 out where p: "p = (s1, out)" by (cases p)
    with x Some obtain h ps where "call h ?s0 (next_id s) ps req = (s1, out)"
      using resolve_calls by blast
    then have "set (waiting s1) \<subseteq> set (map fst (timers s1))"
      using assms(2) by (intro call_keeps_timers [of h ?s0 "next_id s" ps req s1 out]) simp_all
    with s' Some p show ?thesis by (simp add: settle_fields)
  qed
next
  case (Timer w)
  show ?thesis
  proof (cases "w \<in> set (map fst (timers s))")
    case True
    then have s': "s' = timeout w (s\<lparr>timers := filter (\<lambda>p. fst p \<noteq> w) (timers s)\<rparr>)"
      using assms(1) Timer by simp
    have 1: "set (waiting s') \<subseteq> set (waiting s) - {w}"
      unfolding s' by (auto simp: timeout_def)
    have 2: "set (map fst (timers s)) - {w} \<subseteq> set (map fst (timers s'))"
      unfolding s' by (force simp: timeout_def)
    from 1 2 assms(2) show ?thesis by blast
  next
    case False
    then have "s' = s" using assms(1) Timer by simp
    with assms(2) show ?thesis by simp
  qed
next
  case (Disconnect c)
  with assms show ?thesis by auto
qed

lemma run_keeps_timers:
  "set (waiting s) \<subseteq> set (map fst (timers s)) \<Longrightarrow>
     set (waiting (fst (run s es))) \<subseteq> set (map fst (timers (fst (run s es))))"
proof (induction es arbitrary: s)
  case Nil
  then show ?case by simp
next
  case (Cons e es)
  show ?case
  proof (cases "step s e")
    case (Inl x)
    then show ?thesis using Cons.prems by simp
  next
    case (Inr s')
    then show ?thesis
      using Cons.IH [of s'] step_keeps_timers [OF Inr Cons.prems] by simp
  qed
qed

lemma start_waiting: "waiting (start loaded) = []"
  by (cases loaded) (simp_all add: start_def SkillShareServer_def)

lemma number_zero: "StringToNumber ''0'' = MV 0"
  by code_simp

lemma poll_registers:
  "step (start None) (Request (poll (Some (quoted ''0'')) (Some ''wait=0''))) =
     Inr \<lparr>talks = [], version = 0, waiting = [0], settled = [], written = [],
          timers = [(0, MV 0)], saved = [], delegated = [], closed = [], next_id = 1\<rparr>"
proof -
  let ?req = "poll (Some (quoted ''0'')) (Some ''wait=0'')"
  let ?s0 = "(start None) \<lparr>next_id := 1\<rparr>"
  have "get_talks ?s0 0 ?req = (waitForChanges 0 (StringToNumber ''0'') ?s0, Pending 0)"
    using get_talks_wait [of ?req "\<lparr>index = 0, matched = quoted ''0'', groups = [''0'']\<rparr>" "''0''" ?s0
        "\<lparr>index = 0, matched = ''wait=0'', groups = [''0'']\<rparr>" "''0''" 0]
    by (simp add: poll_fields tag_zero wait_zero start_fields zero_current)
  then show ?thesis
    unfolding step_list [OF poll_fields(1,2)]
    by (simp add: settle_def start_fields number_zero waitForChanges_def start_def SkillShareServer_def)
qed

lemma put_after_close:
  "step \<lparr>talks = [], version = 0, waiting = [0], settled = [], written = [],
         timers = [(0, MV 0)], saved = [], delegated = [], closed = [0], next_id = Suc 0\<rparr>
     (Request ((request_of ''PUT'' ''/talks/x'') \<lparr>stream := Parsed ann\<rparr>)) =
   Inr \<lparr>talks = [(''x'', intro)], version = 1, waiting = [],
        settled = [(0, talkResponse \<lparr>talks = [(''x'', intro)], version = 1, waiting = [0], settled = [],
           written = [], timers = [(0, MV 0)], saved = [], delegated = [], closed = [0], next_id = 2\<rparr>)],
        written =
          [(0, \<lparr>wire_status = 200,
                wire_headers = [(''Content-Type'', ''application/json''), (''ETag'', quoted ''1'')],
                wire_body = Some (Json_talks [intro])\<rparr>),
           (1, \<lparr>wire_status = 204, wire_headers = defaultHeaders, wire_body = None\<rparr>)],
        timers = [(0, MV 0)], saved = [[(''x'', intro)]], delegated = [], closed = [0], next_id = 2\<rparr>"
  by code_simp

text \<open>
  C7, as the claim states it, fails: a waiter whose connection closes should leave the
  pending set, and no response should be written for it. Here waiter 0 is registered
  and its connection closes: the waiter is still pending. Then a talk is put: the
  response of the closed request 0 is written with the others.
\<close>

theorem closed_connection_counterexample:
  "run (start None) [Request (poll (Some (quoted ''0'')) (Some ''wait=0'')), Disconnect 0] =
     (held, None) \<and>
   written (fst (run (start None)
     [Request (poll (Some (quoted ''0'')) (Some ''wait=0'')), Disconnect 0,
      Request ((request_of ''PUT'' ''/talks/x'') \<lparr>stream := Parsed ann\<rparr>)])) =
     [(0, \<lparr>wire_status = 200,
           wire_headers = [(''Content-Type'', ''application/json''), (''ETag'', quoted ''1'')],
           wire_body = Some (Json_talks [intro])\<rparr>),
      (1, \<lparr>wire_status = 204, wire_headers = defaultHeaders, wire_body = None\<rparr>)]"
  by (simp add: held_def poll_registers put_after_close del: step.simps(1))

text \<open>
  C7, amended. The close of a connection changes nothing but the record of it: the
  waiter stays pending. A waiter leaves the pending set when its timeout fires or at
  the next \<open>updated\<close>, which writes the response of every unsettled waiter, also of one
  whose connection has closed. In every state that a run reaches from the start, every
  pending waiter has a timeout that has not fired yet, so the pending set is bounded by
  the waits in progress.
\<close>

theorem closed_connections:
  "step s (Disconnect c) = Inr (s\<lparr>closed := closed s @ [c]\<rparr>) \<and>
   (w \<in> set (map fst (timers s)) \<longrightarrow> (\<exists>s'. step s (Timer w) = Inr s' \<and> w \<notin> set (waiting s'))) \<and>
   waiting (updated s) = [] \<and>
   (w \<in> set (closed s) \<and> w \<in> set (waiting s) \<and> map_of (settled s) w = None \<longrightarrow>
      (w, defaults (talkResponse (updated s))) \<in> set (written (updated s))) \<and>
   set (waiting (fst (run (start loaded) es))) \<subseteq> set (map fst (timers (fst (run (start loaded) es))))"
proof (intro conjI impI)
  show "step s (Disconnect c) = Inr (s\<lparr>closed := closed s @ [c]\<rparr>)" by simp
next
  assume "w \<in> set (map fst (timers s))"
  then have "step s (Timer w) = Inr (timeout w (s\<lparr>timers := filter (\<lambda>p. fst p \<noteq> w) (timers s)\<rparr>))"
    by simp
  moreover have "w \<notin> set (waiting (timeout w (s\<lparr>timers := filter (\<lambda>p. fst p \<noteq> w) (timers s)\<rparr>)))"
    by (simp add: timeout_def)
  ultimately show "\<exists>s'. step s (Timer w) = Inr s' \<and> w \<notin> set (waiting s')" by blast
next
  show "waiting (updated s) = []" by (simp add: updated_fields)
next
  assume "w \<in> set (closed s) \<and> w \<in> set (waiting s) \<and> map_of (settled s) w = None"
  then show "(w, defaults (talkResponse (updated s))) \<in> set (written (updated s))"
    using updated_writes by blast
next
  show "set (waiting (fst (run (start loaded) es))) \<subseteq> set (map fst (timers (fst (run (start loaded) es))))"
    by (rule run_keeps_timers) (simp add: start_waiting)
qed

theorem closed_connections_witness:
  "0 \<in> set (map fst (timers held)) \<and>
   (\<exists>s'. step held (Timer 0) = Inr s' \<and> 0 \<notin> set (waiting s')) \<and>
   0 \<in> set (closed held) \<and> 0 \<in> set (waiting held) \<and> map_of (settled held) 0 = None \<and>
   (0, defaults (talkResponse (updated held))) \<in> set (written (updated held))"
proof -
  note t = closed_connections [of held 0 0 None "[]"]
  have a: "0 \<in> set (map fst (timers held))" by (simp add: held_def)
  have b: "0 \<in> set (closed held) \<and> 0 \<in> set (waiting held) \<and> map_of (settled held) 0 = None"
    by (simp add: held_def)
  from t a have "\<exists>s'. step held (Timer 0) = Inr s' \<and> 0 \<notin> set (waiting s')" by blast
  moreover from t b have "(0, defaults (talkResponse (updated held))) \<in> set (written (updated held))"
    by blast
  ultimately show ?thesis using a b by blast
qed

section \<open>Pending waiters are unsettled\<close>

lemma fold_resolve_keys:
  "set (map fst (settled (fold (\<lambda>w. resolve_waiter w r) ws s))) \<subseteq> set (map fst (settled s)) \<union> set ws"
proof
  fix x
  assume "x \<in> set (map fst (settled (fold (\<lambda>w. resolve_waiter w r) ws s)))"
  then have "map_of (settled (fold (\<lambda>w. resolve_waiter w r) ws s)) x \<noteq> None"
    unfolding settled_key .
  then have "x \<in> set ws \<or> map_of (settled s) x \<noteq> None"
    by (simp add: fold_resolve_settled split: if_splits)
  then show "x \<in> set (map fst (settled s)) \<union> set ws"
    using settled_key [of x s] by auto
qed

lemma updated_settled_keys:
  "set (map fst (settled (updated s))) \<subseteq> set (map fst (settled s)) \<union> set (waiting s)"
proof -
  let ?s1 = "s\<lparr>version := version s + 1\<rparr>"
  have "settled (updated s) = settled (fold (\<lambda>w. resolve_waiter w (talkResponse ?s1)) (waiting s) ?s1)"
    by (simp add: updated_def Let_def writeTalks_def)
  then show ?thesis using fold_resolve_keys [of "talkResponse ?s1" "waiting s" ?s1] by simp
qed

lemma tidy_updated:
  assumes "tidy k s" "waiting s' = waiting s" "settled s' = settled s"
  shows "tidy (Suc k) (updated s')"
proof -
  have "set (map fst (settled (updated s'))) \<subseteq> set (map fst (settled s)) \<union> set (waiting s)"
    using updated_settled_keys [of s'] assms(2,3) by simp
  then have "\<forall>w \<in> set (map fst (settled (updated s'))). w < Suc k"
    using assms(1) unfolding tidy_def by fastforce
  then show ?thesis unfolding tidy_def by (simp add: updated_fields)
qed

lemma tidy_mono: "tidy k s \<Longrightarrow> tidy (Suc k) s"
  unfolding tidy_def by (meson less_Suc_eq)

lemma tidy_wait:
  assumes "tidy k s"
  shows "tidy (Suc k) (waitForChanges k time s)"
proof -
  have "map_of (settled s) k = None"
    using assms settled_key [of k s] unfolding tidy_def by fastforce
  then show ?thesis
    using assms unfolding tidy_def waitForChanges_def by (auto simp: less_Suc_eq)
qed

lemma call_tidy:
  assumes "call h s c ps req = (s1, out)" "tidy c s"
  shows "tidy (Suc c) s1"
proof (cases "(h, s, c, ps, req)" rule: call.cases)
  case (1 s' c' t req')
  then show ?thesis using assms tidy_mono by (auto simp: get_talk_def split: option.splits)
next
  case (2 s' c' t req')
  then show ?thesis
    using assms tidy_mono tidy_updated [of c s]
    by (auto simp: delete_talk_def split: if_splits)
next
  case (3 s' c' t req')
  then show ?thesis
    using assms tidy_mono tidy_updated [of c s]
    by (auto simp: put_talk_def split: content.splits bool.splits option.splits)
next
  case (4 s' c' t req')
  then show ?thesis
    using assms tidy_mono tidy_updated [of c s]
    by (auto simp: post_comment_def split: content.splits if_splits)
next
  case (5 s' c' req')
  then show ?thesis
    using assms tidy_mono tidy_wait [of c s]
    by (auto simp: get_talks_def Let_def split: option.splits if_splits)
qed (use assms tidy_mono in auto)

lemma tidy_fields:
  "waiting s' = waiting s \<Longrightarrow> settled s' = settled s \<Longrightarrow> tidy k s' = tidy k s"
  by (simp add: tidy_def)

lemma tidy_subset:
  assumes "tidy k s" "set (waiting s') \<subseteq> set (waiting s)" "settled s' = settled s"
  shows "tidy k s'"
  using assms unfolding tidy_def by (simp add: subset_iff)

lemma step_tidy:
  assumes "step s e = Inr s'" "tidy (next_id s) s"
  shows "tidy (next_id s') s'"
proof (cases e)
  case (Request req)
  let ?s0 = "s\<lparr>next_id := next_id s + 1\<rparr>"
  from assms(1) Request obtain x where x: "resolve routes ?s0 (next_id s) req = Inr x"
    and s': "s' = (case x of
                   None \<Rightarrow> s\<lparr>next_id := next_id s + 1, delegated := delegated s @ [next_id s]\<rparr>
                 | Some (s1, out) \<Rightarrow> settle (next_id s) out s1)"
    using serve_Inr [of routes s req s'] by auto
  have t0: "tidy (next_id s) ?s0" using assms(2) by (simp add: tidy_def)
  show ?thesis
  proof (cases x)
    case None
    with s' tidy_mono [OF assms(2)] show ?thesis by (simp add: tidy_def)
  next
    case (Some p)
    obtain s1 out where p: "p = (s1, out)" by (cases p)
    with x Some obtain h ps where c: "call h ?s0 (next_id s) ps req = (s1, out)"
      using resolve_calls by blast
    have n: "next_id s1 = Suc (next_id s)"
      using c by (cases "(h, ?s0, next_id s, ps, req)" rule: call.cases)
        (auto simp: get_talk_def delete_talk_def put_talk_def post_comment_def get_talks_def Let_def
          updated_fields waitForChanges_def
          split: option.splits if_splits content.splits bool.splits)
    have "tidy (Suc (next_id s)) s1" using call_tidy [OF c t0] .
    then show ?thesis
      using s' Some p n by (cases out) (simp_all add: settle_def respond_def tidy_def)
  qed
next
  case (Timer w)
  then have "set (waiting s') \<subseteq> set (waiting s)" "settled s' = settled s" "next_id s' = next_id s"
    using assms(1) by (auto simp: timeout_def split: if_splits)
  then show ?thesis using tidy_subset [OF assms(2)] by simp
next
  case (Disconnect c)
  then have "set (waiting s') \<subseteq> set (waiting s)" "settled s' = settled s" "next_id s' = next_id s"
    using assms(1) by auto
  then show ?thesis using tidy_subset [OF assms(2)] by simp
qed

lemma run_tidy: "tidy (next_id s) s \<Longrightarrow> tidy (next_id (fst (run s es))) (fst (run s es))"
proof (induction es arbitrary: s)
  case Nil
  then show ?case by simp
next
  case (Cons e es)
  show ?case
  proof (cases "step s e")
    case (Inl x)
    then show ?thesis using Cons.prems by simp
  next
    case (Inr s')
    then show ?thesis using Cons.IH [of s'] step_tidy [OF Inr Cons.prems] by simp
  qed
qed

lemma start_tidy: "tidy (next_id (start loaded)) (start loaded)"
  by (cases loaded) (simp_all add: start_def SkillShareServer_def tidy_def)

lemma reached_unsettled:
  "w \<in> set (waiting (fst (run (start loaded) es))) \<Longrightarrow>
     map_of (settled (fst (run (start loaded) es))) w = None"
  using run_tidy [OF start_tidy, of loaded es] unfolding tidy_def by blast

text \<open>
  C2. In a state whose pending waiters are unsettled, one call of \<open>updated\<close> adds exactly
  1 to the version, computes one response from the talks and the new version, settles
  every pending waiter with that response and writes it to that waiter's request, and
  leaves no waiter pending. The response carries the new version as its quoted ETag and
  the serialised collection as its body. The pending waiters are unsettled in every
  state that a run reaches from the start.
\<close>

theorem updated_releases_all:
  assumes "\<forall>w \<in> set (waiting s). map_of (settled s) w = None"
  shows "version (updated s) = version s + 1 \<and> waiting (updated s) = [] \<and>
         (\<forall>w \<in> set (waiting s).
            map_of (settled (updated s)) w = Some (talkResponse (updated s)) \<and>
            (w, defaults (talkResponse (updated s))) \<in> set (written (updated s))) \<and>
         headers (talkResponse (updated s)) =
           Some [(''Content-Type'', ''application/json''), (''ETag'', dquote # decimal (version s + 1) @ [dquote])] \<and>
         body (talkResponse (updated s)) = Some (Json_talks (map snd (in_key_order (talks s)))) \<and>
         (\<forall>w \<in> set (waiting (fst (run (start loaded) es))).
            map_of (settled (fst (run (start loaded) es))) w = None)"
proof -
  let ?s1 = "s\<lparr>version := version s + 1\<rparr>"
  have r: "talkResponse (updated s) = talkResponse ?s1"
    by (rule talkResponse_cong) (simp_all add: updated_fields)
  have st: "settled (updated s) = settled (fold (\<lambda>w. resolve_waiter w (talkResponse ?s1)) (waiting s) ?s1)"
    and wr: "written (updated s) = written (fold (\<lambda>w. resolve_waiter w (talkResponse ?s1)) (waiting s) ?s1)"
    by (simp_all add: updated_def Let_def writeTalks_def)
  have "\<forall>w \<in> set (waiting s).
            map_of (settled (updated s)) w = Some (talkResponse (updated s)) \<and>
            (w, defaults (talkResponse (updated s))) \<in> set (written (updated s))"
    using assms unfolding r st wr by (simp add: fold_resolve_settled fold_resolve_written)
  moreover have "headers (talkResponse (updated s)) =
           Some [(''Content-Type'', ''application/json''), (''ETag'', dquote # decimal (version s + 1) @ [dquote])]"
    unfolding r by (simp add: talkResponse_def)
  moreover have "body (talkResponse (updated s)) = Some (Json_talks (map snd (in_key_order (talks s))))"
    unfolding r by (simp add: talkResponse_def)
  moreover have "\<forall>w \<in> set (waiting (fst (run (start loaded) es))).
            map_of (settled (fst (run (start loaded) es))) w = None"
    using reached_unsettled by blast
  ultimately show ?thesis by (simp add: updated_fields)
qed

theorem updated_releases_all_witness:
  "waiting ((SkillShareServer []) \<lparr>waiting := [0, 1]\<rparr>) = [0, 1] \<and>
   map_of (settled ((SkillShareServer []) \<lparr>waiting := [0, 1]\<rparr>)) 0 = None \<and>
   map_of (settled ((SkillShareServer []) \<lparr>waiting := [0, 1]\<rparr>)) 1 = None \<and>
   version (updated ((SkillShareServer []) \<lparr>waiting := [0, 1]\<rparr>)) = 1 \<and>
   waiting (updated ((SkillShareServer []) \<lparr>waiting := [0, 1]\<rparr>)) = [] \<and>
   map_of (settled (updated ((SkillShareServer []) \<lparr>waiting := [0, 1]\<rparr>))) 0 =
     Some (talkResponse (updated ((SkillShareServer []) \<lparr>waiting := [0, 1]\<rparr>))) \<and>
   map_of (settled (updated ((SkillShareServer []) \<lparr>waiting := [0, 1]\<rparr>))) 1 =
     Some (talkResponse (updated ((SkillShareServer []) \<lparr>waiting := [0, 1]\<rparr>)))"
proof -
  have h: "\<forall>w \<in> set (waiting ((SkillShareServer []) \<lparr>waiting := [0, 1]\<rparr>)).
      map_of (settled ((SkillShareServer []) \<lparr>waiting := [0, 1]\<rparr>)) w = None"
    by (simp add: SkillShareServer_def)
  show ?thesis
    using h updated_releases_all [OF h] by (simp add: SkillShareServer_def)
qed

end
